theory Spec2Isabelle
  imports Complex_Main "HOL-Library.Multiset"
begin

unbundle bit_operations_syntax

section \<open>Gates of qcomp: the data model of \<^verbatim>\<open>qcomp/gate.py\<close>\<close>

text \<open>
  Amplitudes are NumPy complex numbers; the model computes with exact complex numbers, so
  every equality below is exact where the source is exact up to rounding. A one-dimensional
  array is a list, a two-dimensional array is the list of its rows. Qubit counts are natural
  numbers. Every exception of the source is a value of \<open>error\<close>.
\<close>

datatype error = AssertionError | ValueError | IndexError | RecursionError

type_synonym vec = "complex list"
type_synonym mat = "complex list list"

text \<open>\<^verbatim>\<open>matrix.shape\<close>: the number of rows and the length of a row.\<close>

definition shape :: "mat \<Rightarrow> nat \<times> nat" where
  "shape M = (length M, case M of [] \<Rightarrow> 0 | r # _ \<Rightarrow> length r)"

text \<open>What NumPy guarantees of any two-dimensional array: all rows have the same length.\<close>

definition rect :: "mat \<Rightarrow> bool" where
  "rect M = (\<forall>r \<in> set M. length r = snd (shape M))"

definition vdot :: "vec \<Rightarrow> vec \<Rightarrow> complex" where
  "vdot xs ys = sum_list (map2 (*) xs ys)"

definition column :: "mat \<Rightarrow> nat \<Rightarrow> vec" where
  "column M j = map (\<lambda>r. r ! j) M"

text \<open>\<^verbatim>\<open>M.dot(v)\<close> for a matrix and a vector: NumPy raises ValueError when the row
  length of the matrix is not the length of the vector.\<close>

definition np_dot :: "mat \<Rightarrow> vec \<Rightarrow> error + vec" where
  "np_dot M v = (if snd (shape M) \<noteq> length v then Inl ValueError
                 else Inr (map (\<lambda>r. vdot r v) M))"

text \<open>\<^verbatim>\<open>np.matmul(A, B)\<close>: ValueError unless the row length of \<open>A\<close> is the number of
  rows of \<open>B\<close>.\<close>

definition np_matmul :: "mat \<Rightarrow> mat \<Rightarrow> error + mat" where
  "np_matmul A B = (if snd (shape A) \<noteq> fst (shape B) then Inl ValueError
       else Inr (map (\<lambda>r. map (\<lambda>j. vdot r (column B j)) [0..<snd (shape B)]) A))"

text \<open>\<^verbatim>\<open>np.kron(A, B)\<close>: every entry of \<open>A\<close> is replaced by its multiple of \<open>B\<close>.\<close>

definition np_kron :: "mat \<Rightarrow> mat \<Rightarrow> mat" where
  "np_kron A B =
     concat (map (\<lambda>ra. map (\<lambda>rb. concat (map (\<lambda>a. map ((*) a) rb) ra)) B) A)"

subsection \<open>The register collaborator\<close>

text \<open>
  Modelled from the spec: the class \<^verbatim>\<open>QReg\<close> of \<^verbatim>\<open>qcomp/qregister.py\<close> is not part of
  the sources at hand. The spec gives it a qubit count (\<^verbatim>\<open>nbits\<close>, also \<^verbatim>\<open>len(qreg)\<close>), an
  amplitude vector of length \<open>2 ^ nbits\<close> (\<^verbatim>\<open>state\<close>) and a constructor from a qubit count
  and a state vector.
\<close>

record qreg =
  nbits :: nat
  state :: vec

definition QReg :: "nat \<Rightarrow> vec \<Rightarrow> qreg" where
  "QReg n s = \<lparr>nbits = n, state = s\<rparr>"

subsection \<open>Class \<^verbatim>\<open>Gate\<close> and class \<^verbatim>\<open>MGate\<close>\<close>

record gate =
  qreg_size :: nat

record mgate = gate +
  matrix :: mat

text \<open>\<^verbatim>\<open>MGate.__init__\<close>: two assertions, then the fields are stored.\<close>

definition MGate :: "mat \<Rightarrow> nat \<Rightarrow> error + mgate" where
  "MGate M k =
     (if fst (shape M) \<noteq> snd (shape M) then Inl AssertionError
      else if 2 ^ k \<noteq> fst (shape M) then Inl AssertionError
      else Inr \<lparr>qreg_size = k, matrix = M\<rparr>)"

text \<open>\<^verbatim>\<open>MGate.__add__\<close>: \<^verbatim>\<open>MGate(np.matmul(self.matrix, other.matrix), self.qreg_size)\<close>.\<close>

definition MGate_add :: "mgate \<Rightarrow> mgate \<Rightarrow> error + mgate" where
  "MGate_add self other =
     (case np_matmul (matrix self) (matrix other) of
        Inl e \<Rightarrow> Inl e
      | Inr M \<Rightarrow> MGate M (qreg_size self))"

text \<open>\<^verbatim>\<open>MGate.__mul__\<close>:
  \<^verbatim>\<open>MGate(np.kron(self.matrix, other.matrix), self.qreg_size + other.qreg_size)\<close>.\<close>

definition MGate_mul :: "mgate \<Rightarrow> mgate \<Rightarrow> error + mgate" where
  "MGate_mul self other =
     MGate (np_kron (matrix self) (matrix other)) (qreg_size self + qreg_size other)"

text \<open>
  \<^verbatim>\<open>MGate.__pow__\<close>: \<^verbatim>\<open>self if i == 1 else self*self**(i-1)\<close>, where \<^verbatim>\<open>**\<close> binds
  tighter than \<^verbatim>\<open>*\<close> and \<^verbatim>\<open>*\<close> is \<^verbatim>\<open>__mul__\<close>. The exponent is a Python integer. The
  first argument is the number of nested calls the interpreter still allows; when it is
  used up Python raises RecursionError, which is how the recursion ends for \<open>i < 1\<close>.
\<close>

fun MGate_pow :: "nat \<Rightarrow> mgate \<Rightarrow> int \<Rightarrow> error + mgate" where
  "MGate_pow 0 self i = Inl RecursionError"
| "MGate_pow (Suc d) self i =
     (if i = 1 then Inr self
      else case MGate_pow d self (i - 1) of
             Inl e \<Rightarrow> Inl e
           | Inr r \<Rightarrow> MGate_mul self r)"

text \<open>\<^verbatim>\<open>MGate.apply\<close>: it overrides \<^verbatim>\<open>Gate.apply\<close> and does not call it, so the assertion
  of \<^verbatim>\<open>Gate.apply\<close> on the register size is not run; the product itself can raise.\<close>

definition MGate_apply :: "mgate \<Rightarrow> qreg \<Rightarrow> error + qreg" where
  "MGate_apply self r =
     (case np_dot (matrix self) (state r) of
        Inl e \<Rightarrow> Inl e
      | Inr new_state \<Rightarrow> Inr (QReg (nbits r) new_state))"

text \<open>The predefined gates \<^verbatim>\<open>NOT\<close>, \<^verbatim>\<open>CNOT\<close> and \<^verbatim>\<open>CNOT_r\<close>.\<close>

definition NOT_gate :: mgate where
  "NOT_gate = \<lparr>qreg_size = 1, matrix = [[0, 1], [1, 0]]\<rparr>"

definition CNOT :: mgate where
  "CNOT = \<lparr>qreg_size = 2, matrix = [[1,0,0,0],[0,1,0,0],[0,0,0,1],[0,0,1,0]]\<rparr>"

definition CNOT_r :: mgate where
  "CNOT_r = \<lparr>qreg_size = 2, matrix = [[1,0,0,0],[0,0,0,1],[0,0,1,0],[0,1,0,0]]\<rparr>"

text \<open>The Kronecker power \<open>M \<otimes> \<dots> \<otimes> M\<close> with \<open>n\<close> factors, for \<open>n \<ge> 1\<close>.\<close>

fun kron_power :: "mat \<Rightarrow> nat \<Rightarrow> mat" where
  "kron_power M 0 = [[1]]"
| "kron_power M (Suc 0) = M"
| "kron_power M (Suc (Suc n)) = np_kron M (kron_power M (Suc n))"

subsection \<open>The closed-form appliers \<^verbatim>\<open>LazyCNOT\<close> and \<^verbatim>\<open>LazyNOT\<close>\<close>

datatype LazyCNOT = LazyCNOT (ncontrols: nat)

datatype LazyNOT = LazyNOT (not_nbits: nat)

text \<open>\<^verbatim>\<open>LazyCNOT.dot\<close>: copy, then swap the last two entries; reading entry \<open>-2\<close> of a
  vector shorter than two raises IndexError.\<close>

definition LazyCNOT_dot :: "LazyCNOT \<Rightarrow> vec \<Rightarrow> error + vec" where
  "LazyCNOT_dot self qreg_state =
     (let new_state = qreg_state; n = length new_state
      in if n < 2 then Inl IndexError
         else Inr (new_state[n - 1 := new_state ! (n - 2), n - 2 := new_state ! (n - 1)]))"

text \<open>\<^verbatim>\<open>LazyNOT.dot\<close>: the slice \<^verbatim>\<open>qreg_state[::-1]\<close>.\<close>

definition LazyNOT_dot :: "LazyNOT \<Rightarrow> vec \<Rightarrow> vec" where
  "LazyNOT_dot self qreg_state = rev qreg_state"

subsection \<open>The oracle builder \<^verbatim>\<open>construct_unitary_F\<close>\<close>

text \<open>Sequencing of computations that can raise.\<close>

definition and_then :: "error + 'a \<Rightarrow> ('a \<Rightarrow> error + 'b) \<Rightarrow> error + 'b" where
  "and_then r f = (case r of Inl e \<Rightarrow> Inl e | Inr x \<Rightarrow> f x)"

text \<open>
  Modelled from the spec: the attribute \<^verbatim>\<open>bases\<close> of \<^verbatim>\<open>QReg\<close> is not part of the sources
  at hand. The spec gives it as the enumeration of the basis labels, strings of 0/1 of
  length the qubit count, in index order; the label of an index is its binary numeral,
  most significant digit first.
\<close>

fun label :: "nat \<Rightarrow> nat \<Rightarrow> string" where
  "label 0 x = []"
| "label (Suc n) x = label n (x div 2) @ [if odd x then CHR ''1'' else CHR ''0'']"

definition QReg_bases :: "nat \<Rightarrow> string list" where
  "QReg_bases n = map (label n) [0..<2 ^ n]"

text \<open>\<^verbatim>\<open>int(s, 2)\<close> on a string of binary digits; the empty string and any other character
  raise ValueError (the signs, prefixes, underscores and blanks that Python also accepts do
  not occur in a basis label).\<close>

fun int2_acc :: "nat \<Rightarrow> string \<Rightarrow> error + nat" where
  "int2_acc a [] = Inr a"
| "int2_acc a (c # cs) =
     (if c = CHR ''0'' then int2_acc (2 * a) cs
      else if c = CHR ''1'' then int2_acc (2 * a + 1) cs
      else Inl ValueError)"

definition py_int2 :: "string \<Rightarrow> error + nat" where
  "py_int2 s = (if s = [] then Inl ValueError else int2_acc 0 s)"

text \<open>\<^verbatim>\<open>range(lo, hi, step)\<close> for a positive step.\<close>

definition py_range :: "nat \<Rightarrow> nat \<Rightarrow> nat \<Rightarrow> nat list" where
  "py_range lo hi step = map (\<lambda>k. lo + k * step) [0..<(hi - lo + step - 1) div step]"

text \<open>\<^verbatim>\<open>np.zeros([r, c])\<close> and the item assignment \<^verbatim>\<open>M[r, c] = v\<close> at indices that are not
  negative; an index out of range raises IndexError.\<close>

definition np_zeros2 :: "nat \<Rightarrow> nat \<Rightarrow> mat" where
  "np_zeros2 r c = replicate r (replicate c 0)"

definition mat_set :: "mat \<Rightarrow> nat \<Rightarrow> nat \<Rightarrow> complex \<Rightarrow> error + mat" where
  "mat_set M r c v =
     (if r < length M \<and> c < length (M ! r) then Inr (M[r := (M ! r)[c := v]])
      else Inl IndexError)"

text \<open>The body of the loop of \<^verbatim>\<open>construct_unitary_F\<close>, and the loop over the pairs of
  \<^verbatim>\<open>zip(dummy_bases, range(0, 2**reg_size, 2))\<close>.\<close>

definition F_body :: "string list \<Rightarrow> string \<Rightarrow> nat \<Rightarrow> mat \<Rightarrow> error + mat" where
  "F_body fdef base i_col cmatrix =
     (if base \<in> set fdef then
        and_then (py_int2 (base @ ''1'')) (\<lambda>target_state.
        and_then (mat_set cmatrix target_state i_col 1) (\<lambda>cmatrix.
        and_then (py_int2 (base @ ''0'')) (\<lambda>target_state.
        mat_set cmatrix target_state (i_col + 1) 1)))
      else
        and_then (py_int2 (base @ ''0'')) (\<lambda>target_state.
        and_then (mat_set cmatrix target_state i_col 1) (\<lambda>cmatrix.
        and_then (py_int2 (base @ ''1'')) (\<lambda>target_state.
        mat_set cmatrix target_state (i_col + 1) 1))))"

fun F_loop :: "string list \<Rightarrow> (string \<times> nat) list \<Rightarrow> mat \<Rightarrow> error + mat" where
  "F_loop fdef [] cmatrix = Inr cmatrix"
| "F_loop fdef ((base, i_col) # rest) cmatrix =
     and_then (F_body fdef base i_col cmatrix) (F_loop fdef rest)"

text \<open>\<^verbatim>\<open>construct_unitary_F(fdef, in_size=None)\<close>: \<^verbatim>\<open>not in_size\<close> holds for \<^verbatim>\<open>None\<close> and
  for \<open>0\<close>, and \<^verbatim>\<open>fdef[0]\<close> raises IndexError on the empty list.\<close>

definition construct_unitary_F :: "string list \<Rightarrow> nat option \<Rightarrow> error + mgate" where
  "construct_unitary_F fdef in_size_arg =
     and_then
       (case in_size_arg of
          Some (Suc n) \<Rightarrow> Inr (Suc n)
        | _ \<Rightarrow> (case fdef of [] \<Rightarrow> Inl IndexError | s # _ \<Rightarrow> Inr (length s)))
       (\<lambda>in_size.
          let reg_size = in_size + 1;
              dummy_bases = QReg_bases in_size;
              cmatrix = np_zeros2 (2 ^ reg_size) (2 ^ reg_size)
          in and_then (F_loop fdef (zip dummy_bases (py_range 0 (2 ^ reg_size) 2)) cmatrix)
               (\<lambda>cmatrix. MGate cmatrix reg_size))"

text \<open>The register holding the basis state named by a string of binary digits: amplitude
  one at the index whose binary numeral the string is, zero elsewhere.\<close>

definition bin_val :: "string \<Rightarrow> nat" where
  "bin_val s = foldl (\<lambda>a c. 2 * a + (if c = CHR ''1'' then 1 else 0)) 0 s"

definition ket :: "string \<Rightarrow> qreg" where
  "ket s = QReg (length s) ((replicate (2 ^ length s) 0)[bin_val s := 1])"

definition flip_digit :: "char \<Rightarrow> char" where
  "flip_digit c = (if c = CHR ''0'' then CHR ''1'' else CHR ''0'')"

text \<open>The square matrix of dimension \<open>N\<close> with entry \<open>f r c\<close> in row \<open>r\<close> and column \<open>c\<close>, and
  the row the oracle sends column \<open>c\<close> to: the last digit of \<open>c\<close> is flipped when the label of
  the other digits is accepted. Both serve to state what the loop has built.\<close>

definition mat_of :: "(nat \<Rightarrow> nat \<Rightarrow> complex) \<Rightarrow> nat \<Rightarrow> mat" where
  "mat_of f N = map (\<lambda>r. map (\<lambda>c. f r c) [0..<N]) [0..<N]"

definition F_target :: "string list \<Rightarrow> nat \<Rightarrow> nat \<Rightarrow> nat" where
  "F_target fdef L c =
     (if label L (c div 2) \<in> set fdef then (if even c then c + 1 else c - 1) else c)"

subsection \<open>Class \<^verbatim>\<open>LazyGate\<close>\<close>

text \<open>
  The fields of a \<^verbatim>\<open>LazyGate\<close>; its field \<^verbatim>\<open>matrix\<close> is \<open>lmatrix\<close> here, the name
  \<open>matrix\<close> being taken by \<^verbatim>\<open>MGate\<close>. Target positions are the Python integers the caller
  passes; basis indices come from \<^verbatim>\<open>np.arange\<close> and positions of spectators from
  \<^verbatim>\<open>range\<close>, so they are natural numbers. Basis indices are 64-bit integers in NumPy; the
  model computes with unbounded numbers. That is the same computation for a register of
  fewer than 63 qubits and at most 63 target positions, each below 63. From position 63 on
  the mask \<^verbatim>\<open>1<<q\<close> does not fit a 64-bit integer and \<^verbatim>\<open>base & (1<<q)\<close> raises in NumPy,
  which the model does not follow: what is stated below about positions is stated for
  positions inside the register or below 63.
\<close>

record lazygate = gate +
  lmatrix :: mat
  msize :: nat
  qsize :: nat
  bases :: "nat list"
  qbpos :: "int list"
  specpos :: "nat list"

text \<open>A \<^verbatim>\<open>for\<close> loop over a list of values with an accumulator, stopping at the first
  exception.\<close>

fun for_loop :: "'i list \<Rightarrow> ('i \<Rightarrow> 'a \<Rightarrow> error + 'a) \<Rightarrow> 'a \<Rightarrow> error + 'a" where
  "for_loop [] body a = Inr a"
| "for_loop (i # is) body a = and_then (body i a) (for_loop is body)"

text \<open>A list comprehension whose element expression can raise.\<close>

fun comprehension :: "('x \<Rightarrow> error + 'y) \<Rightarrow> 'x list \<Rightarrow> error + 'y list" where
  "comprehension f [] = Inr []"
| "comprehension f (x # xs) =
     and_then (f x) (\<lambda>y. and_then (comprehension f xs) (\<lambda>ys. Inr (y # ys)))"

text \<open>
  \<^verbatim>\<open>LazyGate.get_qbpos\<close>: the loop body is
  \<^verbatim>\<open>a = a | ((base & (1<<q)) >> q) << len(self.qbpos)-i-1\<close>, where the shifts associate to
  the left and the subtraction binds tighter than the shifts. A shift by a negative count
  raises ValueError. The operands are natural numbers here and 64-bit integers in NumPy,
  the same for positions below 63 (see above).
\<close>

definition get_qbpos :: "'a lazygate_scheme \<Rightarrow> nat \<Rightarrow> error + nat" where
  "get_qbpos self base =
     for_loop [0..<length (qbpos self)]
       (\<lambda>i a. let q = qbpos self ! i
              in if q < 0 then Inl ValueError
                 else Inr (a OR push_bit (length (qbpos self) - i - 1)
                                  (drop_bit (nat q) (base AND push_bit (nat q) 1))))
       0"

text \<open>\<^verbatim>\<open>LazyGate.get_spectator\<close>: the loop body is
  \<^verbatim>\<open>a = a | ((base & (1<<q)) >> (q-i))\<close>.\<close>

definition get_spectator :: "'a lazygate_scheme \<Rightarrow> nat \<Rightarrow> error + nat" where
  "get_spectator self base =
     for_loop [0..<length (specpos self)]
       (\<lambda>i a. let q = specpos self ! i
              in if q < i then Inl ValueError
                 else Inr (a OR drop_bit (q - i) (base AND push_bit q 1)))
       0"

definition gather_qbpos :: "'a lazygate_scheme \<Rightarrow> error + nat list" where
  "gather_qbpos self = comprehension (get_qbpos self) (bases self)"

definition gather_spectators :: "'a lazygate_scheme \<Rightarrow> error + nat list" where
  "gather_spectators self = comprehension (get_spectator self) (bases self)"

text \<open>
  NumPy indexing of a one-dimensional array: by a list of indices that are not negative
  (\<^verbatim>\<open>xs[idx]\<close>, IndexError out of range), and by a slice \<^verbatim>\<open>xs[i:j]\<close>, which is clipped to
  the array.
\<close>

definition np_take :: "'a list \<Rightarrow> nat list \<Rightarrow> error + 'a list" where
  "np_take xs idx =
     (if \<forall>i \<in> set idx. i < length xs then Inr (map ((!) xs) idx) else Inl IndexError)"

definition slice :: "'a list \<Rightarrow> nat \<Rightarrow> nat \<Rightarrow> 'a list" where
  "slice xs i j = take (j - i) (drop i xs)"

text \<open>The values assigned to \<open>n\<close> places: as many values, or one value that is repeated;
  anything else raises ValueError.\<close>

definition np_broadcast :: "nat \<Rightarrow> 'a list \<Rightarrow> error + 'a list" where
  "np_broadcast n vals =
     (if length vals = n then Inr vals
      else case vals of [v] \<Rightarrow> Inr (replicate n v) | _ \<Rightarrow> Inl ValueError)"

text \<open>The assignment \<^verbatim>\<open>xs[i:j] = vals\<close>.\<close>

definition slice_assign :: "'a list \<Rightarrow> nat \<Rightarrow> nat \<Rightarrow> 'a list \<Rightarrow> error + 'a list" where
  "slice_assign xs i j vals =
     and_then (np_broadcast (length (slice xs i j)) vals)
       (\<lambda>vs. Inr (take i xs @ vs @ drop (i + length vs) xs))"

text \<open>The assignment \<^verbatim>\<open>xs[idx] = vals\<close> for a list of indices: the values are written one
  after the other.\<close>

definition np_put :: "'a list \<Rightarrow> nat list \<Rightarrow> 'a list \<Rightarrow> error + 'a list" where
  "np_put xs idx vals =
     (if \<forall>i \<in> set idx. i < length xs
      then and_then (np_broadcast (length idx) vals)
             (\<lambda>vs. Inr (fold (\<lambda>(i, v) ys. ys[i := v]) (zip idx vs) xs))
      else Inl IndexError)"

text \<open>
  \<^verbatim>\<open>np.argsort\<close> is a parameter of the model: NumPy's default sort is not stable, so the
  order it gives to equal keys is not fixed. What any \<^verbatim>\<open>argsort\<close> gives is a rearrangement
  of the indices of its argument that reads the keys in ascending order.
\<close>

definition argsort_spec :: "(nat list \<Rightarrow> nat list) \<Rightarrow> bool" where
  "argsort_spec argsort =
     (\<forall>ks. mset (argsort ks) = mset [0..<length ks] \<and> sorted (map ((!) ks) (argsort ks)))"

text \<open>One such function: the stable sort of the indices by their keys.\<close>

definition stable_argsort :: "nat list \<Rightarrow> nat list" where
  "stable_argsort ks = sort_key ((!) ks) [0..<length ks]"

text \<open>The body of the loop of \<^verbatim>\<open>LazyGate.__init__\<close>:
  \<^verbatim>\<open>self.bases[i:i+self.msize] = self.bases[i:i+self.msize][np.argsort(gbits[i:i+self.msize])]\<close>.\<close>

definition sort_block ::
  "(nat list \<Rightarrow> nat list) \<Rightarrow> nat list \<Rightarrow> nat \<Rightarrow> nat \<Rightarrow> nat list \<Rightarrow> error + nat list" where
  "sort_block argsort gbits m i bs =
     and_then (np_take (slice bs i (i + m)) (argsort (slice gbits i (i + m))))
       (\<lambda>vals. slice_assign bs i (i + m) vals)"

text \<open>\<^verbatim>\<open>LazyGate.__init__\<close>.\<close>

definition LazyGate ::
  "(nat list \<Rightarrow> nat list) \<Rightarrow> mat \<Rightarrow> int list \<Rightarrow> nat \<Rightarrow> error + lazygate" where
  "LazyGate argsort matrix0 qbpos0 qreg_size0 =
     (let self = \<lparr>qreg_size = qreg_size0, lmatrix = matrix0, msize = 2 ^ length qbpos0,
                  qsize = 2 ^ qreg_size0, bases = [0..<2 ^ qreg_size0], qbpos = qbpos0,
                  specpos = filter (\<lambda>x. int x \<notin> set qbpos0) [0..<qreg_size0]\<rparr>
      in and_then (gather_spectators self) (\<lambda>keys.
         and_then (np_take (bases self) (argsort keys)) (\<lambda>bs.
         let self = self\<lparr>bases := bs\<rparr>
         in and_then (gather_qbpos self) (\<lambda>gbits.
            and_then (for_loop (py_range 0 (qsize self) (msize self))
                        (sort_block argsort gbits (msize self)) (bases self))
              (\<lambda>bs. Inr (self\<lparr>bases := bs\<rparr>))))))"

text \<open>\<^verbatim>\<open>LazyGate.apply\<close>: the body of the loop is
  \<^verbatim>\<open>new_state[self.bases[i:i+self.msize]] = self.matrix.dot(qreg.state[self.bases[i:i+self.msize]])\<close>.\<close>

definition apply_block :: "lazygate \<Rightarrow> vec \<Rightarrow> nat \<Rightarrow> vec \<Rightarrow> error + vec" where
  "apply_block self qstate i new_state =
     and_then (np_take qstate (slice (bases self) i (i + msize self))) (\<lambda>gathered.
     and_then (np_dot (lmatrix self) gathered) (\<lambda>prod.
     np_put new_state (slice (bases self) i (i + msize self)) prod))"

definition LazyGate_apply :: "lazygate \<Rightarrow> qreg \<Rightarrow> error + qreg" where
  "LazyGate_apply self r =
     and_then (for_loop (py_range 0 (qsize self) (msize self))
                 (apply_block self (state r)) (replicate (length (state r)) 0))
       (\<lambda>new_state. Inr (QReg (nbits r) new_state))"

text \<open>
  The same loop with a log of its accesses. One pass evaluates the right-hand side first,
  which reads \<^verbatim>\<open>qreg.state\<close> at the places \<^verbatim>\<open>self.bases[i:i+self.msize]\<close>, and then
  assigns to \<^verbatim>\<open>new_state\<close> at the places \<^verbatim>\<open>self.bases[i:i+self.msize]\<close>; the log holds the
  places read and the places written, in the order of the accesses.
\<close>

definition apply_block_traced ::
  "lazygate \<Rightarrow> vec \<Rightarrow> nat \<Rightarrow> vec \<times> nat list \<times> nat list \<Rightarrow>
     error + vec \<times> nat list \<times> nat list" where
  "apply_block_traced self qstate i acc =
     (case acc of (new_state, reads, writes) \<Rightarrow>
        and_then (np_take qstate (slice (bases self) i (i + msize self))) (\<lambda>gathered.
        and_then (np_dot (lmatrix self) gathered) (\<lambda>prod.
        and_then (np_put new_state (slice (bases self) i (i + msize self)) prod) (\<lambda>new_state.
        Inr (new_state, reads @ slice (bases self) i (i + msize self),
             writes @ slice (bases self) i (i + msize self))))))"

definition LazyGate_apply_traced ::
  "lazygate \<Rightarrow> qreg \<Rightarrow> error + qreg \<times> nat list \<times> nat list" where
  "LazyGate_apply_traced self r =
     and_then (for_loop (py_range 0 (qsize self) (msize self))
                 (apply_block_traced self (state r)) (replicate (length (state r)) 0, [], []))
       (\<lambda>(new_state, reads, writes). Inr (QReg (nbits r) new_state, reads, writes))"

subsection \<open>A local gate as a matrix on the whole register\<close>

text \<open>
  The matrix of dimension \<open>2 ^ n\<close> that acts as \<open>U\<close> on the qubits at the positions \<open>P\<close> and
  as the identity on all other qubits, written from its meaning: bit \<open>q\<close> of a basis index
  is the value of qubit \<open>q\<close>; the row and column index of \<open>U\<close> are the bits at the target
  positions, the first position the most significant; an entry between two basis indices
  that differ at a spectator position is zero.
\<close>

definition target_bits :: "int list \<Rightarrow> nat \<Rightarrow> nat" where
  "target_bits P b = foldl (\<lambda>a q. 2 * a + (if bit b (nat q) then 1 else 0)) 0 P"

definition same_spectators :: "int list \<Rightarrow> nat \<Rightarrow> nat \<Rightarrow> nat \<Rightarrow> bool" where
  "same_spectators P n r c = (\<forall>q \<in> set [0..<n]. int q \<in> set P \<or> bit r q = bit c q)"

definition dense_embed :: "mat \<Rightarrow> int list \<Rightarrow> nat \<Rightarrow> mat" where
  "dense_embed U P n =
     mat_of (\<lambda>r c. if same_spectators P n r c then U ! target_bits P r ! target_bits P c else 0)
       (2 ^ n)"

definition eye :: "nat \<Rightarrow> mat" where
  "eye N = mat_of (\<lambda>r c. if r = c then 1 else 0) N"

text \<open>The number whose bit \<open>i\<close> is bit \<open>S ! i\<close> of \<open>b\<close>: what \<^verbatim>\<open>get_spectator\<close> packs for the
  spectator positions \<open>S\<close>.\<close>

definition spectator_bits :: "nat list \<Rightarrow> nat \<Rightarrow> nat" where
  "spectator_bits S b = horner_sum of_bool 2 (map (bit b) S)"

text \<open>The value of \<^verbatim>\<open>self.bases\<close> after the first sort of the constructor, which groups the
  basis indices by their spectator bits.\<close>

definition grouped_bases :: "(nat list \<Rightarrow> nat list) \<Rightarrow> int list \<Rightarrow> nat \<Rightarrow> nat list" where
  "grouped_bases argsort P n =
     map ((!) [0..<2 ^ n])
       (argsort (map (spectator_bits (filter (\<lambda>x. int x \<notin> set P) [0..<n])) [0..<2 ^ n]))"

text \<open>The place a basis index takes in the finished table: its spectator bits select the
  block, its target bits the place inside the block.\<close>

definition packed_index :: "int list \<Rightarrow> nat \<Rightarrow> nat \<Rightarrow> nat" where
  "packed_index P n b =
     spectator_bits (filter (\<lambda>x. int x \<notin> set P) [0..<n]) b * 2 ^ length P + target_bits P b"

text \<open>Block \<open>g\<close> of the table after the loop of the constructor has sorted it.\<close>

definition sorted_block :: "(nat list \<Rightarrow> nat list) \<Rightarrow> int list \<Rightarrow> nat \<Rightarrow> nat \<Rightarrow> nat list" where
  "sorted_block argsort P n g =
     map ((!) (slice (grouped_bases argsort P n) (g * 2 ^ length P) (g * 2 ^ length P + 2 ^ length P)))
       (argsort (slice (map (target_bits P) (grouped_bases argsort P n))
                   (g * 2 ^ length P) (g * 2 ^ length P + 2 ^ length P)))"

text \<open>The amplitude that \<^verbatim>\<open>LazyGate.apply\<close> computes for place \<open>i\<close> of the table: row
  \<open>i mod M\<close> of the matrix times the amplitudes gathered for the block of \<open>i\<close>.\<close>

definition block_product :: "mat \<Rightarrow> nat \<Rightarrow> nat list \<Rightarrow> vec \<Rightarrow> nat \<Rightarrow> complex" where
  "block_product U M bs st i =
     vdot (U ! (i mod M)) (map ((!) st) (slice bs (i div M * M) (i div M * M + M)))"

subsection \<open>State buffers and the arrays that view them\<close>

text \<open>
  For the questions of aliasing the state of a register is modelled as NumPy has it: a
  store holds the buffers, the address of a buffer is its index in the store, and an array
  is a view of a buffer, given by the address, the place of its first entry, the step
  between entries and the number of entries. Allocation appends a buffer to the store, so
  a new address is one that no array of the old store has. Temporary arrays that never
  leave an operation (the gathered amplitudes, the product) are values.
\<close>

type_synonym store = "vec list"

record ndarray =
  buf :: nat
  offset :: nat
  stride :: int
  alen :: nat

definition pos :: "ndarray \<Rightarrow> nat \<Rightarrow> nat" where
  "pos a k = nat (int (offset a) + int k * stride a)"

text \<open>An array lies inside its buffer.\<close>

definition valid :: "store \<Rightarrow> ndarray \<Rightarrow> bool" where
  "valid st a =
     (buf a < length st \<and>
      (\<forall>k \<in> set [0..<alen a]. 0 \<le> int (offset a) + int k * stride a \<and>
                                 pos a k < length (st ! buf a)))"

definition read :: "store \<Rightarrow> ndarray \<Rightarrow> vec" where
  "read st a = map (\<lambda>k. st ! buf a ! pos a k) [0..<alen a]"

definition write_at :: "store \<Rightarrow> ndarray \<Rightarrow> nat \<Rightarrow> complex \<Rightarrow> store" where
  "write_at st a k v = st[buf a := (st ! buf a)[pos a k := v]]"

definition fresh_array :: "store \<Rightarrow> nat \<Rightarrow> ndarray" where
  "fresh_array st n = \<lparr>buf = length st, offset = 0, stride = 1, alen = n\<rparr>"

text \<open>A new array with the given entries: \<^verbatim>\<open>np.zeros\<close>, \<^verbatim>\<open>copy\<close>, the result of \<^verbatim>\<open>dot\<close>.\<close>

definition np_alloc :: "store \<Rightarrow> vec \<Rightarrow> ndarray \<times> store" where
  "np_alloc st v = (fresh_array st (length v), st @ [v])"

text \<open>The slice \<^verbatim>\<open>a[::-1]\<close>: a view of the same buffer, read backwards.\<close>

definition reversed :: "ndarray \<Rightarrow> ndarray" where
  "reversed a =
     a\<lparr>offset := (if alen a = 0 then offset a else pos a (alen a - 1)),
       stride := - stride a\<rparr>"

text \<open>A register whose state is an array in the store.\<close>

record qreg_s =
  nbits_s :: nat
  state_s :: ndarray

definition reg_value :: "store \<Rightarrow> qreg_s \<Rightarrow> qreg" where
  "reg_value st r = QReg (nbits_s r) (read st (state_s r))"

text \<open>\<^verbatim>\<open>MGate.apply\<close> on the store.\<close>

definition MGate_apply_s :: "mgate \<Rightarrow> qreg_s \<Rightarrow> store \<Rightarrow> error + qreg_s \<times> store" where
  "MGate_apply_s self r st =
     and_then (np_dot (matrix self) (read st (state_s r)))
       (\<lambda>v. let (new_state, st) = np_alloc st v
            in Inr (\<lparr>nbits_s = nbits_s r, state_s = new_state\<rparr>, st))"

text \<open>\<^verbatim>\<open>LazyGate.apply\<close> on the store: \<^verbatim>\<open>new_state\<close> is allocated first and written block by
  block, and each block is gathered from the buffer of the register as it is then.\<close>

definition take_s :: "store \<Rightarrow> ndarray \<Rightarrow> nat list \<Rightarrow> error + vec" where
  "take_s st a idx =
     (if \<forall>i \<in> set idx. i < alen a then Inr (map (\<lambda>i. st ! buf a ! pos a i) idx)
      else Inl IndexError)"

definition put_s :: "store \<Rightarrow> ndarray \<Rightarrow> nat list \<Rightarrow> vec \<Rightarrow> error + store" where
  "put_s st a idx vals =
     (if \<forall>i \<in> set idx. i < alen a
      then and_then (np_broadcast (length idx) vals)
             (\<lambda>vs. Inr (fold (\<lambda>(i, v) s. write_at s a i v) (zip idx vs) st))
      else Inl IndexError)"

definition apply_block_s ::
  "lazygate \<Rightarrow> ndarray \<Rightarrow> ndarray \<Rightarrow> nat \<Rightarrow> store \<Rightarrow> error + store" where
  "apply_block_s self qstate new_state i st =
     and_then (take_s st qstate (slice (bases self) i (i + msize self))) (\<lambda>gathered.
     and_then (np_dot (lmatrix self) gathered) (\<lambda>prod.
     put_s st new_state (slice (bases self) i (i + msize self)) prod))"

definition LazyGate_apply_s :: "lazygate \<Rightarrow> qreg_s \<Rightarrow> store \<Rightarrow> error + qreg_s \<times> store" where
  "LazyGate_apply_s self r st =
     (let (new_state, st) = np_alloc st (replicate (alen (state_s r)) 0)
      in and_then (for_loop (py_range 0 (qsize self) (msize self))
                     (apply_block_s self (state_s r) new_state) st)
           (\<lambda>st. Inr (\<lparr>nbits_s = nbits_s r, state_s = new_state\<rparr>, st)))"

text \<open>\<^verbatim>\<open>LazyCNOT.dot\<close> on the store: \<^verbatim>\<open>copy\<close> allocates, the swap reads both entries and then
  writes both.\<close>

definition LazyCNOT_dot_s :: "LazyCNOT \<Rightarrow> ndarray \<Rightarrow> store \<Rightarrow> error + ndarray \<times> store" where
  "LazyCNOT_dot_s self qreg_state st =
     (let (new_state, st) = np_alloc st (read st qreg_state); n = alen new_state
      in if n < 2 then Inl IndexError
         else let x = st ! buf new_state ! pos new_state (n - 2);
                  y = st ! buf new_state ! pos new_state (n - 1)
              in Inr (new_state, write_at (write_at st new_state (n - 1) x) new_state (n - 2) y))"

text \<open>\<^verbatim>\<open>LazyNOT.dot\<close> on the store: the slice is returned as it is, nothing is allocated.\<close>

definition LazyNOT_dot_s :: "LazyNOT \<Rightarrow> ndarray \<Rightarrow> store \<Rightarrow> ndarray \<times> store" where
  "LazyNOT_dot_s self qreg_state st = (reversed qreg_state, st)"

section \<open>Facts about the array operations\<close>

lemma shape_rect_row: "rect M \<Longrightarrow> r \<in> set M \<Longrightarrow> length r = snd (shape M)"
  by (simp add: rect_def)

lemma rect_nth: "rect M \<Longrightarrow> i < length M \<Longrightarrow> length (M ! i) = snd (shape M)"
  by (simp add: rect_def)

lemma vdot_sum: "vdot xs ys = (\<Sum>i<min (length xs) (length ys). xs ! i * ys ! i)"
proof -
  have "vdot xs ys = (\<Sum>i = 0..<length (map2 (*) xs ys). map2 (*) xs ys ! i)"
    unfolding vdot_def by (rule sum_list_sum_nth)
  also have "\<dots> = (\<Sum>i<min (length xs) (length ys). xs ! i * ys ! i)"
    by (intro sum.cong) (auto simp: lessThan_atLeast0)
  finally show ?thesis .
qed

lemma MGate_Inr:
  "MGate M k = Inr g \<longleftrightarrow>
     length M = 2 ^ k \<and> snd (shape M) = 2 ^ k \<and> g = \<lparr>qreg_size = k, matrix = M\<rparr>"
  by (auto simp: MGate_def shape_def)

lemma length_concat_uniform:
  "(\<forall>x\<in>set xs. length (f x) = n) \<Longrightarrow> length (concat (map f xs)) = length xs * n"
  by (induction xs) auto

lemma concat_uniform_nth:
  "(\<forall>x\<in>set xs. length (f x) = n) \<Longrightarrow> i < length xs * n \<Longrightarrow>
     concat (map f xs) ! i = f (xs ! (i div n)) ! (i mod n)"
proof (induction xs arbitrary: i)
  case Nil
  then show ?case by simp
next
  case (Cons x xs)
  have n: "0 < n" using Cons.prems(2) by (cases n) auto
  show ?case
  proof (cases "i < n")
    case True
    then show ?thesis using Cons.prems by (simp add: nth_append)
  next
    case False
    then have ge: "n \<le> i" by simp
    have lt: "i - n < length xs * n" using Cons.prems(2) ge by simp
    have d: "i div n = Suc ((i - n) div n)" using ge n by (simp add: le_div_geq)
    have m: "i mod n = (i - n) mod n" using ge by (simp add: le_mod_geq)
    have "concat (map f (x # xs)) ! i = concat (map f xs) ! (i - n)"
      using Cons.prems(1) False by (simp add: nth_append)
    also have "\<dots> = f (xs ! ((i - n) div n)) ! ((i - n) mod n)"
      using Cons.IH[OF _ lt] Cons.prems(1) by simp
    finally show ?thesis by (simp add: d m)
  qed
qed

lemma shape_fst [simp]: "fst (shape M) = length M"
  by (simp add: shape_def)

lemma kron_row_length:
  "length ra = ca \<Longrightarrow> length rb = cb \<Longrightarrow>
     length (concat (map (\<lambda>a. map ((*) a) rb) ra)) = ca * cb"
  by (simp add: length_concat_uniform[where n = "length rb"])

lemma length_np_kron: "length (np_kron A B) = length A * length B"
  unfolding np_kron_def by (simp add: length_concat_uniform[where n = "length B"])

lemma np_kron_row:
  assumes "i < length A * length B"
  shows "np_kron A B ! i =
           concat (map (\<lambda>a. map ((*) a) (B ! (i mod length B))) (A ! (i div length B)))"
proof -
  have B: "0 < length B" using assms by (cases "length B") auto
  have dv: "i div length B < length A"
    using assms by (simp add: less_mult_imp_div_less)
  have md: "i mod length B < length B" using B by simp
  have "np_kron A B ! i =
          map (\<lambda>rb. concat (map (\<lambda>a. map ((*) a) rb) (A ! (i div length B)))) B ! (i mod length B)"
    unfolding np_kron_def using assms
    by (subst concat_uniform_nth[where n = "length B"]) auto
  then show ?thesis using md by simp
qed

lemma np_kron_entry:
  assumes "rect A" "rect B" "i < length A * length B" "j < snd (shape A) * snd (shape B)"
  shows "np_kron A B ! i ! j =
           A ! (i div length B) ! (j div snd (shape B)) * B ! (i mod length B) ! (j mod snd (shape B))"
proof -
  have B: "0 < length B" using assms(3) by (cases "length B") auto
  have dv: "i div length B < length A"
    using assms(3) by (simp add: less_mult_imp_div_less)
  have md: "i mod length B < length B" using B by simp
  have la: "length (A ! (i div length B)) = snd (shape A)"
    using assms(1) dv by (rule rect_nth)
  have lb: "length (B ! (i mod length B)) = snd (shape B)"
    using assms(2) md by (rule rect_nth)
  have cb: "0 < snd (shape B)" using assms(4) by (cases "snd (shape B)") auto
  have jd: "j div snd (shape B) < snd (shape A)"
    using assms(4) by (simp add: less_mult_imp_div_less)
  have jm: "j mod snd (shape B) < snd (shape B)" using cb by simp
  have "np_kron A B ! i ! j =
          map ((*) (A ! (i div length B) ! (j div snd (shape B)))) (B ! (i mod length B))
            ! (j mod snd (shape B))"
    unfolding np_kron_row[OF assms(3)]
    using assms(4) la lb
    by (subst concat_uniform_nth[where n = "snd (shape B)"]) auto
  then show ?thesis using jm lb by simp
qed

lemma np_kron_row_length:
  assumes "rect A" "rect B" "i < length A * length B"
  shows "length (np_kron A B ! i) = snd (shape A) * snd (shape B)"
proof -
  have B: "0 < length B" using assms(3) by (cases "length B") auto
  have dv: "i div length B < length A"
    using assms(3) by (simp add: less_mult_imp_div_less)
  have md: "i mod length B < length B" using B by simp
  show ?thesis
    unfolding np_kron_row[OF assms(3)]
    using rect_nth[OF assms(1) dv] rect_nth[OF assms(2) md]
    by (simp add: kron_row_length)
qed

lemma shape_np_kron:
  assumes "rect A" "rect B" "A \<noteq> []" "B \<noteq> []"
  shows "snd (shape (np_kron A B)) = snd (shape A) * snd (shape B)"
proof -
  have pos: "0 < length A * length B" using assms(3,4) by simp
  then have ne: "np_kron A B \<noteq> []" using length_np_kron[of A B] by auto
  then have "snd (shape (np_kron A B)) = length (np_kron A B ! 0)"
    by (cases "np_kron A B") (auto simp: shape_def)
  then show ?thesis using np_kron_row_length[OF assms(1,2) pos] by simp
qed

lemma rect_np_kron:
  assumes "rect A" "rect B" "A \<noteq> []" "B \<noteq> []"
  shows "rect (np_kron A B)"
  unfolding rect_def
proof
  fix r assume "r \<in> set (np_kron A B)"
  then obtain i where i: "i < length (np_kron A B)" "r = np_kron A B ! i"
    by (auto simp: in_set_conv_nth)
  then have "i < length A * length B" by (simp add: length_np_kron)
  then show "length r = snd (shape (np_kron A B))"
    using np_kron_row_length[OF assms(1,2)] shape_np_kron[OF assms] i by simp
qed

subsection \<open>The predefined gates are built by the constructor\<close>

lemma MGate_NOT: "MGate [[0, 1], [1, 0]] 1 = Inr NOT_gate"
  by (simp add: MGate_def shape_def NOT_gate_def)

lemma MGate_CNOT: "MGate [[1,0,0,0],[0,1,0,0],[0,0,0,1],[0,0,1,0]] 2 = Inr CNOT"
  by (simp add: MGate_def shape_def CNOT_def)

lemma MGate_CNOT_r: "MGate [[1,0,0,0],[0,0,0,1],[0,0,1,0],[0,1,0,0]] 2 = Inr CNOT_r"
  by (simp add: MGate_def shape_def CNOT_r_def)

lemma rect_NOT: "rect [[0, 1], [1, 0]]"
  by (simp add: rect_def shape_def)

lemma rect_CNOT: "rect [[1,0,0,0],[0,1,0,0],[0,0,0,1],[0,0,1,0]]"
  by (simp add: rect_def shape_def)

lemma rect_CNOT_r: "rect [[1,0,0,0],[0,0,0,1],[0,0,1,0],[0,1,0,0]]"
  by (simp add: rect_def shape_def)

subsection \<open>Products\<close>

lemma np_dot_Inr:
  "np_dot M v = Inr w \<longleftrightarrow> snd (shape M) = length v \<and> w = map (\<lambda>r. vdot r v) M"
  by (auto simp: np_dot_def)

lemma vdot_matmul_row:
  assumes "length r = length B" "\<forall>b\<in>set B. length b = length v"
  shows "vdot (map (\<lambda>j. vdot r (column B j)) [0..<length v]) v = vdot r (map (\<lambda>b. vdot b v) B)"
proof -
  have "vdot (map (\<lambda>j. vdot r (column B j)) [0..<length v]) v
          = (\<Sum>j<length v. (\<Sum>l<length B. r ! l * (B ! l ! j)) * v ! j)"
    unfolding vdot_sum[of "map _ _"] using assms(1)
    by (simp add: vdot_sum column_def)
  also have "\<dots> = (\<Sum>j<length v. \<Sum>l<length B. r ! l * (B ! l ! j * v ! j))"
    by (simp add: sum_distrib_right mult.assoc)
  also have "\<dots> = (\<Sum>l<length B. \<Sum>j<length v. r ! l * (B ! l ! j * v ! j))"
    by (rule sum.swap)
  also have "\<dots> = (\<Sum>l<length B. r ! l * (\<Sum>j<length v. B ! l ! j * v ! j))"
    by (simp add: sum_distrib_left)
  also have "\<dots> = vdot r (map (\<lambda>b. vdot b v) B)"
    unfolding vdot_sum[of r] using assms
    by (simp add: vdot_sum)
  finally show ?thesis .
qed

lemma np_matmul_entry:
  assumes "rect A" "rect B" "snd (shape A) = length B" "i < length A" "j < snd (shape B)"
  shows "\<exists>C. np_matmul A B = Inr C \<and> C ! i ! j = (\<Sum>l<length B. A ! i ! l * B ! l ! j)"
proof -
  have la: "length (A ! i) = length B" using rect_nth[OF assms(1,4)] assms(3) by simp
  show ?thesis using assms(3,4,5) la
    by (simp add: np_matmul_def vdot_sum column_def)
qed

lemma MGate_mul_wf:
  assumes "rect MA" "rect MB" "MGate MA k1 = Inr A" "MGate MB k2 = Inr B"
  shows "\<exists>C. MGate_mul A B = Inr C \<and> qreg_size C = k1 + k2 \<and>
              matrix C = np_kron MA MB \<and> rect (matrix C) \<and>
              shape (matrix C) = (2 ^ (k1 + k2), 2 ^ (k1 + k2)) \<and>
              (\<forall>i<2 ^ (k1 + k2). \<forall>j<2 ^ (k1 + k2).
                 matrix C ! i ! j =
                   MA ! (i div 2 ^ k2) ! (j div 2 ^ k2) * MB ! (i mod 2 ^ k2) ! (j mod 2 ^ k2))"
proof -
  from assms(3) have A: "length MA = 2 ^ k1" "snd (shape MA) = 2 ^ k1"
    "A = \<lparr>qreg_size = k1, matrix = MA\<rparr>" by (simp_all add: MGate_Inr)
  from assms(4) have B: "length MB = 2 ^ k2" "snd (shape MB) = 2 ^ k2"
    "B = \<lparr>qreg_size = k2, matrix = MB\<rparr>" by (simp_all add: MGate_Inr)
  have ne: "MA \<noteq> []" "MB \<noteq> []" using A(1) B(1) by auto
  let ?K = "np_kron MA MB"
  have len: "length ?K = 2 ^ (k1 + k2)" by (simp add: length_np_kron A B power_add)
  have cols: "snd (shape ?K) = 2 ^ (k1 + k2)"
    by (simp add: shape_np_kron[OF assms(1,2) ne] A B power_add)
  have r: "rect ?K" by (rule rect_np_kron[OF assms(1,2) ne])
  have sh: "shape ?K = (2 ^ (k1 + k2), 2 ^ (k1 + k2))"
    using len cols by (simp add: prod_eq_iff)
  have ent: "?K ! i ! j = MA ! (i div 2 ^ k2) ! (j div 2 ^ k2) * MB ! (i mod 2 ^ k2) ! (j mod 2 ^ k2)"
    if "i < 2 ^ (k1 + k2)" "j < 2 ^ (k1 + k2)" for i j
    using np_kron_entry[OF assms(1,2), of i j] that by (simp add: A B power_add)
  have "MGate_mul A B = Inr \<lparr>qreg_size = k1 + k2, matrix = ?K\<rparr>"
    by (simp add: MGate_mul_def A(3) B(3) MGate_Inr len cols)
  then show ?thesis using r sh ent by simp
qed

lemma kron_power_shape:
  assumes "rect M" "length M = 2 ^ k" "snd (shape M) = 2 ^ k"
  shows "rect (kron_power M (Suc n)) \<and> length (kron_power M (Suc n)) = 2 ^ (Suc n * k) \<and>
         snd (shape (kron_power M (Suc n))) = 2 ^ (Suc n * k)"
proof (induction n)
  case 0
  then show ?case using assms by simp
next
  case (Suc n)
  let ?P = "kron_power M (Suc n)"
  have ne: "M \<noteq> []" "?P \<noteq> []" using assms(2) Suc by auto
  have r: "rect ?P" using Suc by simp
  show ?case
    using rect_np_kron[OF assms(1) r ne] shape_np_kron[OF assms(1) r ne] Suc assms(2,3)
    by (simp add: length_np_kron power_add)
qed

section \<open>Facts about the oracle builder\<close>

lemma and_then_Inr [simp]: "and_then (Inr x) f = f x"
  by (simp add: and_then_def)

lemma and_then_Inl [simp]: "and_then (Inl e) f = Inl e"
  by (simp add: and_then_def)

lemma length_label [simp]: "length (label n x) = n"
  by (induction n arbitrary: x) auto

lemma int2_acc_append:
  "int2_acc a (s @ t) = and_then (int2_acc a s) (\<lambda>a'. int2_acc a' t)"
proof (induction s arbitrary: a)
  case Nil
  show ?case by simp
next
  case (Cons c s)
  show ?case by (simp add: Cons.IH)
qed

lemma odd_mod2: "odd x \<Longrightarrow> x mod 2 = Suc 0" for x :: nat
  by (simp add: odd_iff_mod_2_eq_one)

lemma even_mod2: "even x \<Longrightarrow> x mod 2 = 0" for x :: nat
  by (simp add: even_iff_mod_2_eq_zero)

lemma half_mod: "2 * (x div 2 mod 2 ^ n) + x mod 2 = x mod 2 ^ Suc n" for x :: nat
  using mod_mult2_eq[of x 2 "2 ^ n"] by simp

lemma int2_acc_label: "int2_acc a (label n x) = Inr (a * 2 ^ n + x mod 2 ^ n)"
proof (induction n arbitrary: x a)
  case 0
  then show ?case by simp
next
  case (Suc n)
  have "int2_acc a (label (Suc n) x) =
          Inr (2 * (a * 2 ^ n + x div 2 mod 2 ^ n) + x mod 2)"
    by (cases "odd x") (simp_all add: int2_acc_append Suc.IH odd_mod2 even_mod2)
  also have "2 * (a * 2 ^ n + x div 2 mod 2 ^ n) + x mod 2 = a * 2 ^ Suc n + x mod 2 ^ Suc n"
    using half_mod[of x n] by (simp add: algebra_simps)
  finally show ?case .
qed

lemma py_int2_label0: "x < 2 ^ n \<Longrightarrow> py_int2 (label n x @ ''0'') = Inr (2 * x)"
  by (simp add: py_int2_def int2_acc_append int2_acc_label)

lemma py_int2_label1: "x < 2 ^ n \<Longrightarrow> py_int2 (label n x @ ''1'') = Inr (2 * x + 1)"
  by (simp add: py_int2_def int2_acc_append int2_acc_label)

lemma foldl_label:
  "foldl (\<lambda>a c. 2 * a + (if c = CHR ''1'' then 1 else 0)) a (label n x) = a * 2 ^ n + x mod 2 ^ n"
proof (induction n arbitrary: x a)
  case 0
  then show ?case by simp
next
  case (Suc n)
  have "foldl (\<lambda>a c. 2 * a + (if c = CHR ''1'' then 1 else 0)) a (label (Suc n) x) =
          2 * (a * 2 ^ n + x div 2 mod 2 ^ n) + x mod 2"
    by (cases "odd x") (simp_all add: Suc.IH odd_mod2 even_mod2)
  also have "\<dots> = a * 2 ^ Suc n + x mod 2 ^ Suc n"
    using half_mod[of x n] by (simp add: algebra_simps)
  finally show ?case .
qed

lemma bin_val_label0: "x < 2 ^ n \<Longrightarrow> bin_val (label n x @ ''0'') = 2 * x"
  by (simp add: bin_val_def foldl_label)

lemma bin_val_label1: "x < 2 ^ n \<Longrightarrow> bin_val (label n x @ ''1'') = 2 * x + 1"
  by (simp add: bin_val_def foldl_label)

lemma length_mat_of [simp]: "length (mat_of f N) = N"
  by (simp add: mat_of_def)

lemma mat_of_nth [simp]: "r < N \<Longrightarrow> mat_of f N ! r = map (f r) [0..<N]"
  by (simp add: mat_of_def)

lemma mat_of_cong: "(\<And>r c. r < N \<Longrightarrow> c < N \<Longrightarrow> f r c = g r c) \<Longrightarrow> mat_of f N = mat_of g N"
  unfolding mat_of_def by (intro map_cong refl) auto

lemma np_zeros2_mat_of: "np_zeros2 N N = mat_of (\<lambda>r c. 0) N"
  by (simp add: np_zeros2_def mat_of_def map_replicate_const)

lemma mat_set_mat_of:
  assumes "r < N" "c < N"
  shows "mat_set (mat_of f N) r c v = Inr (mat_of (\<lambda>i j. if i = r \<and> j = c then v else f i j) N)"
proof -
  have "(mat_of f N)[r := (mat_of f N ! r)[c := v]] =
          mat_of (\<lambda>i j. if i = r \<and> j = c then v else f i j) N"
  proof (rule nth_equalityI)
    show "length ((mat_of f N)[r := (mat_of f N ! r)[c := v]]) =
            length (mat_of (\<lambda>i j. if i = r \<and> j = c then v else f i j) N)" by simp
  next
    fix i assume "i < length ((mat_of f N)[r := (mat_of f N ! r)[c := v]])"
    then have i: "i < N" by simp
    show "(mat_of f N)[r := (mat_of f N ! r)[c := v]] ! i =
            mat_of (\<lambda>i j. if i = r \<and> j = c then v else f i j) N ! i"
    proof (cases "i = r")
      case True
      have "(map (f r) [0..<N])[c := v] = map (\<lambda>j. if j = c then v else f r j) [0..<N]"
        by (rule nth_equalityI) (simp_all add: nth_list_update)
      then show ?thesis using True assms by simp
    next
      case False
      then show ?thesis using i assms by simp
    qed
  qed
  then show ?thesis using assms by (simp add: mat_set_def)
qed

lemma shape_mat_of: "0 < N \<Longrightarrow> shape (mat_of f N) = (N, N)"
proof -
  assume "0 < N"
  then have "[0..<N] = 0 # [Suc 0..<N]" by (rule upt_conv_Cons)
  then show ?thesis using \<open>0 < N\<close> by (simp add: shape_def mat_of_def)
qed

lemma rect_mat_of: "0 < N \<Longrightarrow> rect (mat_of f N)"
  by (auto simp: rect_def shape_mat_of) (auto simp: mat_of_def)

lemma vdot_unit:
  assumes "length r = N" "c < N"
  shows "vdot r ((replicate N 0)[c := 1]) = r ! c"
proof -
  have "vdot r ((replicate N 0)[c := 1]) = (\<Sum>i<N. r ! i * (if i = c then 1 else 0))"
    unfolding vdot_sum using assms by (intro sum.cong) (auto simp: nth_list_update)
  also have "\<dots> = (\<Sum>i<N. if i = c then r ! i else 0)"
    by (intro sum.cong) auto
  also have "\<dots> = r ! c" using assms(2) by simp
  finally show ?thesis .
qed

lemma np_dot_mat_of_unit:
  assumes "c < N"
  shows "np_dot (mat_of f N) ((replicate N 0)[c := 1]) = Inr (map (\<lambda>r. f r c) [0..<N])"
proof -
  have N: "0 < N" using assms by simp
  have "vdot (map (f r) [0..<N]) ((replicate N 0)[c := 1]) = f r c" for r
    using vdot_unit[of "map (f r) [0..<N]" N c] assms by simp
  then have "map (\<lambda>r. vdot r ((replicate N 0)[c := 1])) (mat_of f N) = map (\<lambda>r. f r c) [0..<N]"
    by (simp add: mat_of_def)
  then show ?thesis
    by (simp add: np_dot_def shape_mat_of[OF N])
qed

lemma unit_column:
  assumes "t < N"
  shows "map (\<lambda>r. if r = t then 1 else 0) [0..<N] = (replicate N (0::complex))[t := 1]"
  using assms by (intro nth_equalityI) (simp_all add: nth_list_update)

lemma F_loop_append:
  "F_loop fdef (xs @ ys) M = and_then (F_loop fdef xs M) (F_loop fdef ys)"
proof (induction xs arbitrary: M)
  case Nil
  show ?case by simp
next
  case (Cons p xs)
  obtain base i_col where p: "p = (base, i_col)" by (cases p)
  show ?case
  proof (cases "F_body fdef base i_col M")
    case (Inl e)
    then show ?thesis by (simp add: p)
  next
    case (Inr M')
    then show ?thesis by (simp add: p Cons.IH)
  qed
qed

lemma F_target_even: "F_target fdef L (2 * x) = (if label L x \<in> set fdef then 2 * x + 1 else 2 * x)"
  by (simp add: F_target_def)

lemma F_target_odd: "F_target fdef L (2 * x + 1) = (if label L x \<in> set fdef then 2 * x else 2 * x + 1)"
  by (simp add: F_target_def)

lemma F_target_less: "c < 2 * n \<Longrightarrow> F_target fdef L c < 2 * n"
  unfolding F_target_def by (cases "even c") (auto elim!: evenE oddE)

lemma F_body_step:
  assumes x: "x < 2 ^ L" and N: "N = 2 ^ Suc L"
  shows "F_body fdef (label L x) (2 * x)
           (mat_of (\<lambda>r c. if c < 2 * x \<and> r = F_target fdef L c then 1 else 0) N) =
         Inr (mat_of (\<lambda>r c. if c < 2 * Suc x \<and> r = F_target fdef L c then 1 else 0) N)"
proof -
  have b: "2 * x < N" "Suc (2 * x) < N" using x N by simp_all
  let ?g = "\<lambda>r c. if c < 2 * x \<and> r = F_target fdef L c then (1::complex) else 0"
  let ?h = "\<lambda>r c. if c < 2 * Suc x \<and> r = F_target fdef L c then (1::complex) else 0"
  have cases_c: "c < 2 * x \<or> c = 2 * x \<or> c = Suc (2 * x) \<or> Suc (2 * x) < c" for c by arith
  have i0: "py_int2 (label L x @ ''0'') = Inr (2 * x)" using x by (rule py_int2_label0)
  have i1: "py_int2 (label L x @ ''1'') = Inr (Suc (2 * x))" using py_int2_label1[OF x] by simp
  have te: "F_target fdef L (2 * x) = (if label L x \<in> set fdef then Suc (2 * x) else 2 * x)"
    using F_target_even[of fdef L x] by simp
  have todd: "F_target fdef L (Suc (2 * x)) = (if label L x \<in> set fdef then 2 * x else Suc (2 * x))"
    using F_target_odd[of fdef L x] by simp
  show ?thesis
  proof (cases "label L x \<in> set fdef")
    case True
    let ?m1 = "\<lambda>i j. if i = Suc (2 * x) \<and> j = 2 * x then 1 else ?g i j"
    let ?m2 = "\<lambda>i j. if i = 2 * x \<and> j = Suc (2 * x) then 1 else ?m1 i j"
    have s1: "mat_set (mat_of ?g N) (Suc (2 * x)) (2 * x) 1 = Inr (mat_of ?m1 N)"
      by (rule mat_set_mat_of[OF b(2) b(1)])
    have s2: "mat_set (mat_of ?m1 N) (2 * x) (Suc (2 * x)) 1 = Inr (mat_of ?m2 N)"
      by (rule mat_set_mat_of[OF b(1) b(2)])
    have eq: "mat_of ?m2 N = mat_of ?h N"
    proof (rule mat_of_cong)
      fix r c
      show "?m2 r c = ?h r c"
        using cases_c[of c] te todd True by (elim disjE) auto
    qed
    have "F_body fdef (label L x) (2 * x) (mat_of ?g N) = Inr (mat_of ?m2 N)"
      unfolding F_body_def using True by (simp add: i0 i1 s1 s2)
    then show ?thesis by (simp only: eq)
  next
    case False
    let ?m1 = "\<lambda>i j. if i = 2 * x \<and> j = 2 * x then 1 else ?g i j"
    let ?m2 = "\<lambda>i j. if i = Suc (2 * x) \<and> j = Suc (2 * x) then 1 else ?m1 i j"
    have s1: "mat_set (mat_of ?g N) (2 * x) (2 * x) 1 = Inr (mat_of ?m1 N)"
      by (rule mat_set_mat_of[OF b(1) b(1)])
    have s2: "mat_set (mat_of ?m1 N) (Suc (2 * x)) (Suc (2 * x)) 1 = Inr (mat_of ?m2 N)"
      by (rule mat_set_mat_of[OF b(2) b(2)])
    have eq: "mat_of ?m2 N = mat_of ?h N"
    proof (rule mat_of_cong)
      fix r c
      show "?m2 r c = ?h r c"
        using cases_c[of c] te todd False by (elim disjE) auto
    qed
    have "F_body fdef (label L x) (2 * x) (mat_of ?g N) = Inr (mat_of ?m2 N)"
      unfolding F_body_def using False by (simp add: i0 i1 s1 s2)
    then show ?thesis by (simp only: eq)
  qed
qed

lemma F_loop_prefix:
  assumes N: "N = 2 ^ Suc L"
  shows "k \<le> 2 ^ L \<Longrightarrow>
         F_loop fdef (map (\<lambda>x. (label L x, 2 * x)) [0..<k]) (mat_of (\<lambda>r c. 0) N) =
         Inr (mat_of (\<lambda>r c. if c < 2 * k \<and> r = F_target fdef L c then 1 else 0) N)"
proof (induction k)
  case 0
  show ?case by simp
next
  case (Suc k)
  then have k: "k < 2 ^ L" "k \<le> 2 ^ L" by simp_all
  show ?case
    using Suc.IH[OF k(2)] F_body_step[OF k(1) N, of fdef]
    by (simp add: F_loop_append)
qed

lemma zip_bases_range:
  "zip (QReg_bases L) (py_range 0 (2 ^ Suc L) 2) = map (\<lambda>x. (label L x, 2 * x)) [0..<2 ^ L]"
proof -
  have "(2 * 2 ^ L + 1) div 2 = (2::nat) ^ L" by simp
  then have "py_range 0 (2 ^ Suc L) 2 = map (\<lambda>k. 2 * k) [0..<2 ^ L]"
    by (simp add: py_range_def mult.commute)
  then show ?thesis
    by (simp add: QReg_bases_def zip_map_map zip_same_conv_map)
qed

lemma F_loop_total:
  "F_loop fdef (zip (QReg_bases L) (py_range 0 (2 ^ Suc L) 2)) (np_zeros2 (2 ^ Suc L) (2 ^ Suc L)) =
   Inr (mat_of (\<lambda>r c. if r = F_target fdef L c then 1 else 0) (2 ^ Suc L))"
proof -
  have eq: "mat_of (\<lambda>r c. if c < 2 * 2 ^ L \<and> r = F_target fdef L c then 1 else 0) (2 ^ Suc L) =
        mat_of (\<lambda>r c. if r = F_target fdef L c then 1 else 0) (2 ^ Suc L)"
    by (rule mat_of_cong) simp
  have "F_loop fdef (zip (QReg_bases L) (py_range 0 (2 ^ Suc L) 2))
          (np_zeros2 (2 ^ Suc L) (2 ^ Suc L)) =
        F_loop fdef (map (\<lambda>x. (label L x, 2 * x)) [0..<2 ^ L]) (mat_of (\<lambda>r c. 0) (2 ^ Suc L))"
    by (simp only: zip_bases_range np_zeros2_mat_of)
  also have "\<dots> = Inr (mat_of (\<lambda>r c. if c < 2 * 2 ^ L \<and> r = F_target fdef L c then 1 else 0)
                       (2 ^ Suc L))"
    by (rule F_loop_prefix[OF refl]) simp
  finally show ?thesis by (simp only: eq)
qed

lemma MGate_apply_oracle_unit:
  assumes "c < 2 ^ Suc L"
  shows "MGate_apply \<lparr>qreg_size = Suc L,
            matrix = mat_of (\<lambda>r c. if r = F_target fdef L c then 1 else 0) (2 ^ Suc L)\<rparr>
           (QReg (Suc L) ((replicate (2 ^ Suc L) 0)[c := 1])) =
         Inr (QReg (Suc L) ((replicate (2 ^ Suc L) 0)[F_target fdef L c := 1]))"
proof -
  have t: "F_target fdef L c < 2 ^ Suc L" using F_target_less[of c "2 ^ L"] assms by simp
  show ?thesis
    using np_dot_mat_of_unit[OF assms, of "\<lambda>r c. if r = F_target fdef L c then 1 else 0"]
      unit_column[OF t]
    by (simp add: MGate_apply_def QReg_def)
qed

lemma ket_label0:
  "i < 2 ^ L \<Longrightarrow> ket (label L i @ ''0'') = QReg (Suc L) ((replicate (2 ^ Suc L) 0)[2 * i := 1])"
  by (simp add: ket_def bin_val_label0)

lemma ket_label1:
  "i < 2 ^ L \<Longrightarrow> ket (label L i @ ''1'') = QReg (Suc L) ((replicate (2 ^ Suc L) 0)[Suc (2 * i) := 1])"
  using bin_val_label1[of i L] by (simp add: ket_def)

lemma construct_unitary_F_value:
  assumes lens: "\<forall>s\<in>set fdef. length s = L"
      and arg: "fdef \<noteq> [] \<and> (in_size = None \<or> in_size = Some L) \<or> in_size = Some L \<and> 0 < L"
  shows "construct_unitary_F fdef in_size =
           Inr \<lparr>qreg_size = Suc L,
                matrix = mat_of (\<lambda>r c. if r = F_target fdef L c then 1 else 0) (2 ^ Suc L)\<rparr>"
proof -
  have isz: "(case in_size of
                Some (Suc n) \<Rightarrow> Inr (Suc n)
              | _ \<Rightarrow> (case fdef of [] \<Rightarrow> Inl IndexError | s # _ \<Rightarrow> Inr (length s))) = Inr L"
  proof (cases "fdef")
    case Nil
    then obtain n where "in_size = Some (Suc n)" "L = Suc n"
      using arg by (cases L) auto
    then show ?thesis by simp
  next
    case (Cons s rest)
    then have "length s = L" using lens by simp
    then show ?thesis using arg Cons by (auto split: option.splits nat.splits)
  qed
  have mg: "MGate (mat_of (\<lambda>r c. if r = F_target fdef L c then 1 else 0) (2 ^ Suc L)) (Suc L) =
          Inr \<lparr>qreg_size = Suc L,
               matrix = mat_of (\<lambda>r c. if r = F_target fdef L c then 1 else 0) (2 ^ Suc L)\<rparr>"
    unfolding MGate_Inr using shape_mat_of[of "2 ^ Suc L"] by simp
  have "construct_unitary_F fdef in_size =
          and_then (F_loop fdef (zip (QReg_bases L) (py_range 0 (2 ^ Suc L) 2))
                      (np_zeros2 (2 ^ Suc L) (2 ^ Suc L)))
            (\<lambda>cmatrix. MGate cmatrix (Suc L))"
    unfolding construct_unitary_F_def isz by (simp add: Let_def)
  also have "\<dots> = MGate (mat_of (\<lambda>r c. if r = F_target fdef L c then 1 else 0) (2 ^ Suc L)) (Suc L)"
    unfolding F_loop_total by simp
  finally show ?thesis unfolding mg .
qed

lemma QReg_bases_2: "QReg_bases 2 = [''00'', ''01'', ''10'', ''11'']"
  by code_simp

section \<open>Facts about the constructor of \<^verbatim>\<open>LazyGate\<close>\<close>

lemma for_loop_append:
  "for_loop (xs @ ys) body a = and_then (for_loop xs body a) (for_loop ys body)"
proof (induction xs arbitrary: a)
  case Nil
  show ?case by simp
next
  case (Cons x xs)
  show ?case by (cases "body x a") (simp_all add: Cons.IH)
qed

lemma comprehension_Inr:
  "(\<And>x. x \<in> set xs \<Longrightarrow> f x = Inr (g x)) \<Longrightarrow> comprehension f xs = Inr (map g xs)"
  by (induction xs) simp_all

lemma comprehension_Inl:
  "xs \<noteq> [] \<Longrightarrow> (\<And>x. x \<in> set xs \<Longrightarrow> f x = Inl e) \<Longrightarrow> comprehension f xs = Inl e"
  by (cases xs) simp_all

lemma sorted_wrt_less_nth_ge:
  "sorted_wrt (<) (xs :: nat list) \<Longrightarrow> i < length xs \<Longrightarrow> i \<le> xs ! i"
proof (induction i)
  case 0
  show ?case by simp
next
  case (Suc i)
  then have "xs ! i < xs ! Suc i" by (simp add: sorted_wrt_nth_less)
  moreover have "i \<le> xs ! i" using Suc by simp
  ultimately show ?case by simp
qed

lemma bit_spectator_bits:
  "bit (spectator_bits S b) j \<longleftrightarrow> j < length S \<and> bit b (S ! j)"
  by (auto simp: spectator_bits_def bit_horner_sum_bit_iff)

lemma spectator_step:
  assumes "k < length S" "k \<le> S ! k"
  shows "spectator_bits (take k S) b OR drop_bit (S ! k - k) (b AND push_bit (S ! k) 1) =
         spectator_bits (take (Suc k) S) b"
proof (rule bit_eqI)
  fix j
  have "bit (drop_bit (S ! k - k) (b AND push_bit (S ! k) 1)) j \<longleftrightarrow> j = k \<and> bit b (S ! k)"
    using assms(2) by (auto simp: bit_simps)
  then show "bit (spectator_bits (take k S) b OR drop_bit (S ! k - k) (b AND push_bit (S ! k) 1)) j
        \<longleftrightarrow> bit (spectator_bits (take (Suc k) S) b) j"
    using assms(1) by (auto simp: bit_or_iff bit_spectator_bits less_Suc_eq)
qed

lemma get_spectator_prefix:
  assumes "sorted_wrt (<) S"
  shows "k \<le> length S \<Longrightarrow>
         for_loop [0..<k]
           (\<lambda>i a. let q = S ! i
                  in if q < i then Inl ValueError
                     else Inr (a OR drop_bit (q - i) (b AND push_bit q 1))) 0 =
         Inr (spectator_bits (take k S) b)"
proof (induction k)
  case 0
  show ?case by (simp add: spectator_bits_def)
next
  case (Suc k)
  then have k: "k < length S" "k \<le> length S" by simp_all
  have ge: "k \<le> S ! k" using assms k(1) by (rule sorted_wrt_less_nth_ge)
  show ?case
    using Suc.IH[OF k(2)] ge spectator_step[OF k(1) ge, of b]
    by (simp add: for_loop_append Let_def)
qed

lemma get_spectator_value:
  assumes "sorted_wrt (<) (specpos self)"
  shows "get_spectator self b = Inr (spectator_bits (specpos self) b)"
  unfolding get_spectator_def
  using get_spectator_prefix[OF assms, of "length (specpos self)" b] by simp

lemma sorted_wrt_filter_upt: "sorted_wrt (<) (filter p [0..<n])"
  by (rule sorted_wrt_filter) (simp add: sorted_wrt_upt)

lemma for_loop_Inl:
  assumes "x \<in> set xs" "\<And>a. body x a = Inl e" "\<And>y a e'. body y a = Inl e' \<Longrightarrow> e' = e"
  shows "for_loop xs body a = Inl e"
  using assms(1)
proof (induction xs arbitrary: a)
  case Nil
  then show ?case by simp
next
  case (Cons y ys)
  show ?case
  proof (cases "body y a")
    case (Inl e')
    then show ?thesis using assms(3)[OF Inl] by simp
  next
    case (Inr a')
    then have "y \<noteq> x" using assms(2)[of a] by auto
    then have "x \<in> set ys" using Cons.prems by simp
    then show ?thesis using Inr Cons.IH by simp
  qed
qed

lemma target_bits_snoc:
  "target_bits (P @ [q]) b = 2 * target_bits P b + (if bit b (nat q) then 1 else 0)"
  by (simp add: target_bits_def)

lemma single_bit:
  fixes b :: nat
  shows "drop_bit q (b AND push_bit q 1) = (if bit b q then 1 else 0)"
proof (rule bit_eqI)
  fix j
  show "bit (drop_bit q (b AND push_bit q 1)) j \<longleftrightarrow> bit (if bit b q then 1 else 0 :: nat) j"
    by (cases "j = 0") (auto simp: bit_simps)
qed

lemma qbpos_step:
  fixes t :: nat
  assumes "k < m"
  shows "push_bit (m - k) t OR push_bit (m - Suc k) (if c then 1 else 0) =
         push_bit (m - Suc k) (2 * t + (if c then 1 else 0))"
proof -
  have mk: "m - k = Suc (m - Suc k)" using assms by simp
  have d: "push_bit (m - k) t = push_bit (m - Suc k) (2 * t)"
    by (simp only: mk push_bit_Suc mult.commute)
  show ?thesis
  proof (cases c)
    case True
    have "push_bit (m - Suc k) (2 * t) OR push_bit (m - Suc k) 1 = push_bit (m - Suc k) (2 * t OR 1)"
      by (simp add: push_bit_or)
    also have "2 * t OR 1 = 2 * t + 1" using or_one_eq[of "2 * t"] by simp
    finally show ?thesis using True by (simp only: d if_True)
  next
    case False
    then show ?thesis by (simp add: d)
  qed
qed

lemma get_qbpos_prefix:
  assumes "\<forall>q\<in>set P. 0 \<le> q"
  shows "k \<le> length P \<Longrightarrow>
         for_loop [0..<k]
           (\<lambda>i a. if P ! i < 0 then Inl ValueError
                  else Inr (a OR push_bit (length P - i - 1)
                                   (if bit b (nat (P ! i)) then 1 else 0))) 0 =
         Inr (push_bit (length P - k) (target_bits (take k P) b))"
proof (induction k)
  case 0
  show ?case by (simp add: target_bits_def)
next
  case (Suc k)
  then have k: "k < length P" "k \<le> length P" by simp_all
  have q: "\<not> P ! k < 0" using assms k(1) by (simp add: not_less)
  have t: "take (Suc k) P = take k P @ [P ! k]" using k(1) by (rule take_Suc_conv_app_nth)
  have st: "push_bit (length P - k) (target_bits (take k P) b) OR
            push_bit (length P - k - 1) (if bit b (nat (P ! k)) then 1 else 0) =
            push_bit (length P - Suc k) (target_bits (take (Suc k) P) b)"
    using qbpos_step[OF k(1), of "target_bits (take k P) b" "bit b (nat (P ! k))"]
    by (simp only: t target_bits_snoc diff_diff_left plus_1_eq_Suc add.commute[of k 1])
  have "for_loop [0..<Suc k]
           (\<lambda>i a. if P ! i < 0 then Inl ValueError
                  else Inr (a OR push_bit (length P - i - 1)
                                   (if bit b (nat (P ! i)) then 1 else 0))) 0 =
        Inr (push_bit (length P - k) (target_bits (take k P) b) OR
             push_bit (length P - k - 1) (if bit b (nat (P ! k)) then 1 else 0))"
    using Suc.IH[OF k(2)] q by (simp add: for_loop_append)
  then show ?case by (simp only: st)
qed

lemma get_qbpos_body:
  "(\<lambda>i a. let q = P ! i
          in if q < 0 then Inl ValueError
             else Inr (a OR push_bit (length P - i - 1)
                              (drop_bit (nat q) ((b::nat) AND push_bit (nat q) 1)))) =
   (\<lambda>i a. if P ! i < 0 then Inl ValueError
          else Inr (a OR push_bit (length P - i - 1) (if bit b (nat (P ! i)) then 1 else 0)))"
  by (simp only: Let_def single_bit)

lemma get_qbpos_value:
  assumes "\<forall>q\<in>set (qbpos self). 0 \<le> q"
  shows "get_qbpos self b = Inr (target_bits (qbpos self) b)"
  unfolding get_qbpos_def get_qbpos_body
  using get_qbpos_prefix[OF assms, of "length (qbpos self)" b] by simp

lemma get_qbpos_negative:
  assumes "\<exists>q\<in>set (qbpos self). q < 0"
  shows "get_qbpos self b = Inl ValueError"
proof -
  from assms obtain i where i: "i < length (qbpos self)" "qbpos self ! i < 0"
    by (auto simp: in_set_conv_nth)
  show ?thesis
    unfolding get_qbpos_def
  proof (rule for_loop_Inl[where x = i])
    show "i \<in> set [0..<length (qbpos self)]" using i(1) by simp
  next
    fix a show "(let q = qbpos self ! i
                 in if q < 0 then Inl ValueError
                    else Inr (a OR push_bit (length (qbpos self) - i - 1)
                                     (drop_bit (nat q) (b AND push_bit (nat q) 1)))) = Inl ValueError"
      using i(2) by simp
  next
    fix y a e'
    assume "(let q = qbpos self ! y
             in if q < 0 then Inl ValueError
                else Inr (a OR push_bit (length (qbpos self) - y - 1)
                                 (drop_bit (nat q) (b AND push_bit (nat q) 1)))) = Inl e'"
    then show "e' = ValueError" by (auto simp: Let_def split: if_splits)
  qed
qed

lemma argsort_length: "argsort_spec as \<Longrightarrow> length (as ks) = length ks"
  unfolding argsort_spec_def using mset_eq_length[of "as ks" "[0..<length ks]"] by simp

lemma argsort_set: "argsort_spec as \<Longrightarrow> set (as ks) = {0..<length ks}"
  unfolding argsort_spec_def using mset_eq_setD[of "as ks" "[0..<length ks]"] by simp

lemma argsort_sorted: "argsort_spec as \<Longrightarrow> sorted (map ((!) ks) (as ks))"
  unfolding argsort_spec_def by simp

lemma argsort_mset_map:
  assumes "argsort_spec as" "length xs = length ks"
  shows "mset (map ((!) xs) (as ks)) = mset xs"
proof -
  have "mset (map ((!) xs) (as ks)) = image_mset ((!) xs) (mset (as ks))" by simp
  also have "mset (as ks) = mset [0..<length xs]"
    using assms unfolding argsort_spec_def by simp
  also have "image_mset ((!) xs) (mset [0..<length xs]) = mset (map ((!) xs) [0..<length xs])"
    by simp
  also have "\<dots> = mset xs" by (simp only: map_nth)
  finally show ?thesis .
qed

lemma np_take_argsort:
  assumes "argsort_spec as" "length xs = length ks"
  shows "np_take xs (as ks) = Inr (map ((!) xs) (as ks))"
  using argsort_set[OF assms(1), of ks] assms(2) by (simp add: np_take_def)

lemma length_slice: "length (slice xs i j) = min (j - i) (length xs - i)"
  by (simp add: slice_def)

lemma take_drop_length_take: "take m xs @ drop (length (take m xs)) xs = xs"
  by (cases "m \<le> length xs") (simp_all add: min_def)

lemma slice_split: "take i xs @ slice xs i (i + m) @ drop (i + length (slice xs i (i + m))) xs = xs"
proof -
  have "slice xs i (i + m) @ drop (i + length (slice xs i (i + m))) xs = drop i xs"
    using take_drop_length_take[of m "drop i xs"]
    by (simp add: slice_def add.commute)
  then show ?thesis by simp
qed

lemma np_broadcast_same: "length vals = n \<Longrightarrow> np_broadcast n vals = Inr vals"
  by (simp add: np_broadcast_def)

lemma sort_block_value:
  assumes "argsort_spec as" "length gbits = length bs"
  shows "sort_block as gbits m i bs =
           Inr (take i bs @ map ((!) (slice bs i (i + m))) (as (slice gbits i (i + m))) @
                drop (i + length (slice bs i (i + m))) bs)"
proof -
  have l: "length (slice bs i (i + m)) = length (slice gbits i (i + m))"
    using assms(2) by (simp add: length_slice)
  have lv: "length (map ((!) (slice bs i (i + m))) (as (slice gbits i (i + m)))) =
            length (slice bs i (i + m))"
    using argsort_length[OF assms(1), of "slice gbits i (i + m)"] l by simp
  show ?thesis
    unfolding sort_block_def slice_assign_def
    using np_take_argsort[OF assms(1) l] np_broadcast_same[OF lv] lv
    by simp
qed

lemma sort_block_mset:
  assumes "argsort_spec as" "length gbits = length bs"
  shows "\<exists>bs'. sort_block as gbits m i bs = Inr bs' \<and> mset bs' = mset bs \<and>
               length bs' = length bs"
proof -
  let ?blk = "slice bs i (i + m)"
  let ?vals = "map ((!) ?blk) (as (slice gbits i (i + m)))"
  let ?bs' = "take i bs @ ?vals @ drop (i + length ?blk) bs"
  have l: "length ?blk = length (slice gbits i (i + m))"
    using assms(2) by (simp add: length_slice)
  have mv: "mset ?vals = mset ?blk" using assms(1) l by (rule argsort_mset_map)
  have "mset ?bs' = mset (take i bs @ ?blk @ drop (i + length ?blk) bs)"
    using mv by simp
  then have m: "mset ?bs' = mset bs" by (simp only: slice_split)
  then have "length ?bs' = length bs" by (rule mset_eq_length)
  then show ?thesis using sort_block_value[OF assms, of m i] m by simp
qed

lemma for_loop_invariant:
  assumes "\<And>i a. I a \<Longrightarrow> \<exists>a'. body i a = Inr a' \<and> I a'" "I a"
  shows "\<exists>a'. for_loop xs body a = Inr a' \<and> I a'"
  using assms(2)
proof (induction xs arbitrary: a)
  case Nil
  then show ?case by simp
next
  case (Cons x xs)
  from assms(1)[OF Cons.prems, of x] obtain a' where a': "body x a = Inr a'" "I a'" by blast
  from Cons.IH[OF a'(2)] show ?case using a'(1) by simp
qed

lemma sort_loop_mset:
  assumes "argsort_spec as" "length gbits = length bs"
  shows "\<exists>bs'. for_loop is (sort_block as gbits m) bs = Inr bs' \<and> mset bs' = mset bs \<and>
               length bs' = length bs"
proof -
  have "\<exists>bs'. for_loop is (sort_block as gbits m) bs = Inr bs' \<and>
              (mset bs' = mset bs \<and> length bs' = length gbits)"
  proof (rule for_loop_invariant)
    fix i a assume I: "mset a = mset bs \<and> length a = length gbits"
    then have "length gbits = length a" by simp
    from sort_block_mset[OF assms(1) this, of m i] I
    show "\<exists>a'. sort_block as gbits m i a = Inr a' \<and> (mset a' = mset bs \<and> length a' = length gbits)"
      by auto
  next
    show "mset bs = mset bs \<and> length bs = length gbits" using assms(2) by simp
  qed
  then show ?thesis using assms(2) by auto
qed

text \<open>The two steps of the constructor, named.\<close>

lemma gather_spectators_value:
  assumes "specpos self = filter p [0..<n]"
  shows "gather_spectators self = Inr (map (spectator_bits (specpos self)) (bases self))"
  unfolding gather_spectators_def
proof (rule comprehension_Inr)
  fix x
  have "sorted_wrt (<) (specpos self)" unfolding assms by (rule sorted_wrt_filter_upt)
  then show "get_spectator self x = Inr (spectator_bits (specpos self) x)"
    by (rule get_spectator_value)
qed

lemma gather_qbpos_value:
  assumes "\<forall>q\<in>set (qbpos self). 0 \<le> q"
  shows "gather_qbpos self = Inr (map (target_bits (qbpos self)) (bases self))"
  unfolding gather_qbpos_def
  by (rule comprehension_Inr) (rule get_qbpos_value[OF assms])

lemma gather_qbpos_negative:
  assumes "\<exists>q\<in>set (qbpos self). q < 0" "bases self \<noteq> []"
  shows "gather_qbpos self = Inl ValueError"
  unfolding gather_qbpos_def
  by (rule comprehension_Inl[OF assms(2)]) (rule get_qbpos_negative[OF assms(1)])

lemma mset_grouped_bases:
  assumes "argsort_spec as"
  shows "mset (grouped_bases as P n) = mset [0..<2 ^ n]"
  unfolding grouped_bases_def by (rule argsort_mset_map[OF assms]) simp

lemma length_grouped_bases:
  assumes "argsort_spec as"
  shows "length (grouped_bases as P n) = 2 ^ n"
  using mset_eq_length[OF mset_grouped_bases[OF assms, of P n]] by simp

lemma LazyGate_unfold:
  assumes "argsort_spec as"
  shows "LazyGate as U P n =
     and_then (gather_qbpos
        \<lparr>qreg_size = n, lmatrix = U, msize = 2 ^ length P, qsize = 2 ^ n,
         bases = grouped_bases as P n, qbpos = P,
         specpos = filter (\<lambda>x. int x \<notin> set P) [0..<n]\<rparr>) (\<lambda>gbits.
     and_then (for_loop (py_range 0 (2 ^ n) (2 ^ length P))
                 (sort_block as gbits (2 ^ length P)) (grouped_bases as P n))
       (\<lambda>bs. Inr \<lparr>qreg_size = n, lmatrix = U, msize = 2 ^ length P, qsize = 2 ^ n,
                  bases = bs, qbpos = P,
                  specpos = filter (\<lambda>x. int x \<notin> set P) [0..<n]\<rparr>))"
proof -
  let ?S = "filter (\<lambda>x. int x \<notin> set P) [0..<n]"
  let ?self = "\<lparr>qreg_size = n, lmatrix = U, msize = 2 ^ length P, qsize = 2 ^ n,
                bases = [0..<2 ^ n], qbpos = P, specpos = ?S\<rparr>"
  have sp: "specpos ?self = filter (\<lambda>x. int x \<notin> set P) [0..<n]" by simp
  have gs: "gather_spectators ?self = Inr (map (spectator_bits ?S) [0..<2 ^ n])"
    using gather_spectators_value[OF sp] by simp
  have tk: "np_take [0..<2 ^ n] (as (map (spectator_bits ?S) [0..<2 ^ n])) =
            Inr (grouped_bases as P n)"
    unfolding grouped_bases_def by (rule np_take_argsort[OF assms]) simp
  show ?thesis
    unfolding LazyGate_def Let_def by (simp add: gs tk)
qed

lemma LazyGate_negative:
  assumes "argsort_spec as" "\<exists>q\<in>set P. q < 0"
  shows "LazyGate as U P n = Inl ValueError"
proof -
  have "grouped_bases as P n \<noteq> []"
    using length_grouped_bases[OF assms(1), of P n] by auto
  then show ?thesis
    unfolding LazyGate_unfold[OF assms(1)]
    using gather_qbpos_negative[of "\<lparr>qreg_size = n, lmatrix = U, msize = 2 ^ length P,
         qsize = 2 ^ n, bases = grouped_bases as P n, qbpos = P,
         specpos = filter (\<lambda>x. int x \<notin> set P) [0..<n]\<rparr>"] assms(2)
    by simp
qed

lemma LazyGate_nonneg:
  assumes "argsort_spec as" "\<forall>q\<in>set P. 0 \<le> q"
  shows "LazyGate as U P n =
     and_then (for_loop (py_range 0 (2 ^ n) (2 ^ length P))
                 (sort_block as (map (target_bits P) (grouped_bases as P n)) (2 ^ length P))
                 (grouped_bases as P n))
       (\<lambda>bs. Inr \<lparr>qreg_size = n, lmatrix = U, msize = 2 ^ length P, qsize = 2 ^ n,
                  bases = bs, qbpos = P,
                  specpos = filter (\<lambda>x. int x \<notin> set P) [0..<n]\<rparr>)"
  unfolding LazyGate_unfold[OF assms(1)]
  using gather_qbpos_value[of "\<lparr>qreg_size = n, lmatrix = U, msize = 2 ^ length P,
         qsize = 2 ^ n, bases = grouped_bases as P n, qbpos = P,
         specpos = filter (\<lambda>x. int x \<notin> set P) [0..<n]\<rparr>"] assms(2)
  by simp

lemma LazyGate_succeeds:
  assumes "argsort_spec as" "\<forall>q\<in>set P. 0 \<le> q"
  shows "\<exists>bs. LazyGate as U P n =
                Inr \<lparr>qreg_size = n, lmatrix = U, msize = 2 ^ length P, qsize = 2 ^ n,
                     bases = bs, qbpos = P,
                     specpos = filter (\<lambda>x. int x \<notin> set P) [0..<n]\<rparr> \<and>
              mset bs = mset [0..<2 ^ n] \<and> length bs = 2 ^ n"
proof -
  have l: "length (map (target_bits P) (grouped_bases as P n)) = length (grouped_bases as P n)"
    by simp
  from sort_loop_mset[OF assms(1) l, of "py_range 0 (2 ^ n) (2 ^ length P)" "2 ^ length P"]
  obtain bs where bs: "for_loop (py_range 0 (2 ^ n) (2 ^ length P))
                 (sort_block as (map (target_bits P) (grouped_bases as P n)) (2 ^ length P))
                 (grouped_bases as P n) = Inr bs"
     "mset bs = mset (grouped_bases as P n)" "length bs = length (grouped_bases as P n)"
    by blast
  show ?thesis
    unfolding LazyGate_nonneg[OF assms]
    using bs mset_grouped_bases[OF assms(1), of P n] length_grouped_bases[OF assms(1), of P n]
    by simp
qed

lemma py_range_blocks: "py_range 0 N M = map (\<lambda>k. k * M) [0..<(N + M - 1) div M]"
  by (simp add: py_range_def)

lemma concat_slices_prefix:
  "concat (map (\<lambda>i. slice xs i (i + M)) (map (\<lambda>k. k * M) [0..<K])) = take (K * M) xs"
proof (induction K)
  case 0
  show ?case by simp
next
  case (Suc K)
  have "take (K * M) xs @ slice xs (K * M) (K * M + M) = take (K * M + M) xs"
    by (simp add: slice_def take_add)
  then show ?case using Suc by (simp add: add.commute)
qed

lemma blocks_cover:
  fixes N M :: nat
  assumes "0 < M"
  shows "N \<le> (N + M - 1) div M * M"
proof -
  have "(N + M - 1) mod M < M" using assms by simp
  moreover have "(N + M - 1) div M * M + (N + M - 1) mod M = N + M - 1" by simp
  ultimately show ?thesis by linarith
qed

lemma concat_slices:
  assumes "0 < M"
  shows "concat (map (\<lambda>i. slice xs i (i + M)) (py_range 0 (length xs) M)) = xs"
  unfolding py_range_blocks concat_slices_prefix
  using blocks_cover[OF assms, of "length xs"] by simp

lemma argsort_spec_stable: "argsort_spec stable_argsort"
  unfolding argsort_spec_def stable_argsort_def
proof (intro allI conjI)
  fix ks :: "nat list"
  show "mset (sort_key ((!) ks) [0..<length ks]) = mset [0..<length ks]" by simp
  show "sorted (map ((!) ks) (sort_key ((!) ks) [0..<length ks]))" by (rule sorted_sort_key)
qed

section \<open>Facts about the table and the loop of \<^verbatim>\<open>LazyGate.apply\<close>\<close>

lemma target_bits_horner:
  "target_bits P b = horner_sum of_bool 2 (map (\<lambda>q. bit b (nat q)) (rev P))"
proof (induction P rule: rev_induct)
  case Nil
  show ?case by (simp add: target_bits_def)
next
  case (snoc q P)
  show ?case by (simp add: target_bits_snoc snoc.IH)
qed

lemma bit_target_bits:
  "bit (target_bits P b) j \<longleftrightarrow> j < length P \<and> bit b (nat (P ! (length P - 1 - j)))"
proof (cases "j < length P")
  case True
  then have "rev P ! j = P ! (length P - 1 - j)" by (simp add: rev_nth)
  then show ?thesis using True by (simp add: target_bits_horner bit_horner_sum_bit_iff)
next
  case False
  then show ?thesis by (simp add: target_bits_horner bit_horner_sum_bit_iff)
qed

lemma target_bits_less: "target_bits P b < 2 ^ length P"
  using horner_sum_bound[of "map (\<lambda>q. bit b (nat q)) (rev P)", where ?'a = nat]
  by (simp add: target_bits_horner)

lemma spectator_bits_less: "spectator_bits S b < 2 ^ length S"
  using horner_sum_bound[of "map (bit b) S", where ?'a = nat]
  by (simp add: spectator_bits_def)

lemma not_bit_ge:
  fixes b :: nat
  assumes "b < 2 ^ n" "n \<le> j"
  shows "\<not> bit b j"
proof -
  have "take_bit n b = b" using assms(1) by (rule take_bit_nat_eq_self)
  then have "bit b j = bit (take_bit n b) j" by simp
  then show ?thesis using assms(2) by (simp add: bit_take_bit_iff)
qed

text \<open>The positions of a register split into target positions and spectator positions.\<close>

lemma length_specpos:
  assumes "distinct P" "\<forall>q\<in>set P. 0 \<le> q \<and> q < int n"
  shows "length (filter (\<lambda>x. int x \<notin> set P) [0..<n]) + length P = n"
proof -
  have "set (filter (\<lambda>x. int x \<in> set P) [0..<n]) = nat ` set P"
  proof (intro equalityI subsetI)
    fix x assume "x \<in> set (filter (\<lambda>x. int x \<in> set P) [0..<n])"
    then have "int x \<in> set P" by simp
    then have "nat (int x) \<in> nat ` set P" by (rule imageI)
    then show "x \<in> nat ` set P" by simp
  next
    fix x assume "x \<in> nat ` set P"
    then obtain q where q: "q \<in> set P" "x = nat q" by auto
    then have "0 \<le> q" "q < int n" using assms(2) by auto
    then show "x \<in> set (filter (\<lambda>x. int x \<in> set P) [0..<n])" using q by auto
  qed
  moreover have "distinct (filter (\<lambda>x. int x \<in> set P) [0..<n])" by simp
  ultimately have "length (filter (\<lambda>x. int x \<in> set P) [0..<n]) = card (nat ` set P)"
    using distinct_card by metis
  also have "\<dots> = card (set P)"
  proof (rule card_image)
    show "inj_on nat (set P)"
    proof (rule inj_onI)
      fix x y assume "x \<in> set P" "y \<in> set P" "nat x = nat y"
      then show "x = y" using assms(2) eq_nat_nat_iff[of x y] by simp
    qed
  qed
  also have "\<dots> = length P" using assms(1) by (rule distinct_card)
  finally have a: "length (filter (\<lambda>x. int x \<in> set P) [0..<n]) = length P" .
  have "length (filter (\<lambda>x. int x \<in> set P) [0..<n]) +
        length (filter (\<lambda>x. \<not> int x \<in> set P) [0..<n]) = length [0..<n]"
    by (rule sum_length_filter_compl)
  then show ?thesis using a by simp
qed

lemma packed_index_less:
  assumes "distinct P" "\<forall>q\<in>set P. 0 \<le> q \<and> q < int n"
  shows "packed_index P n b < 2 ^ n"
proof -
  let ?S = "filter (\<lambda>x. int x \<notin> set P) [0..<n]"
  have n: "n = length ?S + length P" using length_specpos[OF assms] by simp
  have "spectator_bits ?S b * 2 ^ length P + target_bits P b < (spectator_bits ?S b + 1) * 2 ^ length P"
    using target_bits_less[of P b] by (simp add: algebra_simps)
  also have "\<dots> \<le> 2 ^ length ?S * 2 ^ length P"
    using spectator_bits_less[of ?S b] by (intro mult_right_mono) simp_all
  also have "\<dots> = 2 ^ n" by (subst n) (simp only: power_add)
  finally show ?thesis by (simp add: packed_index_def)
qed

lemma packed_index_div:
  "packed_index P n b div 2 ^ length P = spectator_bits (filter (\<lambda>x. int x \<notin> set P) [0..<n]) b"
  using target_bits_less[of P b] by (simp add: packed_index_def)

lemma packed_index_mod: "packed_index P n b mod 2 ^ length P = target_bits P b"
  using target_bits_less[of P b] by (simp add: packed_index_def)

lemma keys_determine_index:
  assumes P: "\<forall>q\<in>set P. 0 \<le> q \<and> q < int n"
      and b: "b < 2 ^ n" and c: "c < 2 ^ n"
      and sk: "spectator_bits (filter (\<lambda>x. int x \<notin> set P) [0..<n]) b =
               spectator_bits (filter (\<lambda>x. int x \<notin> set P) [0..<n]) c"
      and tk: "target_bits P b = target_bits P c"
  shows "b = c"
proof (rule bit_eqI)
  fix j
  let ?S = "filter (\<lambda>x. int x \<notin> set P) [0..<n]"
  show "bit b j \<longleftrightarrow> bit c j"
  proof (cases "j < n")
    case False
    then show ?thesis using not_bit_ge[OF b, of j] not_bit_ge[OF c, of j] by simp
  next
    case True
    show ?thesis
    proof (cases "int j \<in> set P")
      case True
      then obtain i where i: "i < length P" "P ! i = int j" by (metis in_set_conv_nth)
      let ?k = "length P - 1 - i"
      have k: "?k < length P" "length P - 1 - ?k = i" using i(1) by simp_all
      have "bit (target_bits P b) ?k = bit b j" using k i(2) by (simp add: bit_target_bits)
      moreover have "bit (target_bits P c) ?k = bit c j" using k i(2) by (simp add: bit_target_bits)
      ultimately show ?thesis using tk by simp
    next
      case False
      then have "j \<in> set ?S" using \<open>j < n\<close> by simp
      then obtain i where i: "i < length ?S" "?S ! i = j" by (metis in_set_conv_nth)
      have "bit (spectator_bits ?S b) i = bit b j" using i by (simp add: bit_spectator_bits)
      moreover have "bit (spectator_bits ?S c) i = bit c j" using i by (simp add: bit_spectator_bits)
      ultimately show ?thesis using sk by simp
    qed
  qed
qed

lemma packed_index_inj:
  assumes "\<forall>q\<in>set P. 0 \<le> q \<and> q < int n"
  shows "inj_on (packed_index P n) {0..<2 ^ n}"
proof (rule inj_onI)
  fix b c assume b: "b \<in> {0..<2 ^ n}" and c: "c \<in> {0..<2 ^ n}"
    and e: "packed_index P n b = packed_index P n c"
  have "packed_index P n b div 2 ^ length P = packed_index P n c div 2 ^ length P"
       "packed_index P n b mod 2 ^ length P = packed_index P n c mod 2 ^ length P"
    using e by simp_all
  then show "b = c"
    unfolding packed_index_div packed_index_mod
    using keys_determine_index[OF assms, of b c] b c by simp
qed

lemma packed_index_image:
  assumes "distinct P" "\<forall>q\<in>set P. 0 \<le> q \<and> q < int n"
  shows "packed_index P n ` {0..<2 ^ n} = {0..<2 ^ n}"
proof (rule card_subset_eq)
  show "finite {0..<(2::nat) ^ n}" by simp
  show "packed_index P n ` {0..<2 ^ n} \<subseteq> {0..<2 ^ n}"
    using packed_index_less[OF assms] by auto
  show "card (packed_index P n ` {0..<2 ^ n}) = card {0..<(2::nat) ^ n}"
    using packed_index_inj[OF assms(2)] by (rule card_image)
qed

lemma mset_packed_index:
  assumes "distinct P" "\<forall>q\<in>set P. 0 \<le> q \<and> q < int n" "mset bs = mset [0..<2 ^ n]"
  shows "mset (map (packed_index P n) bs) = mset [0..<2 ^ n]"
proof -
  have "mset (map (packed_index P n) bs) = image_mset (packed_index P n) (mset_set {0..<2 ^ n})"
    using assms(3) by simp
  also have "\<dots> = mset_set (packed_index P n ` {0..<2 ^ n})"
    using packed_index_inj[OF assms(2)] by (rule image_mset_mset_set)
  also have "\<dots> = mset [0..<2 ^ n]" by (simp add: packed_index_image[OF assms(1,2)])
  finally show ?thesis .
qed

lemma sorted_same_mset_eq:
  fixes xs ys :: "nat list"
  assumes "mset xs = mset ys" "sorted xs" "sorted ys"
  shows "xs = ys"
  using properties_for_sort[OF assms(1,2)] properties_for_sort[OF refl assms(3)] by simp

lemma spectator_keys_grouped:
  assumes "argsort_spec as"
  shows "map (spectator_bits (filter (\<lambda>x. int x \<notin> set P) [0..<n])) (grouped_bases as P n) =
         map ((!) (map (spectator_bits (filter (\<lambda>x. int x \<notin> set P) [0..<n])) [0..<2 ^ n]))
           (as (map (spectator_bits (filter (\<lambda>x. int x \<notin> set P) [0..<n])) [0..<2 ^ n]))"
proof -
  let ?S = "filter (\<lambda>x. int x \<notin> set P) [0..<n]"
  let ?ks = "map (spectator_bits ?S) [0..<2 ^ n]"
  have "\<And>i. i \<in> set (as ?ks) \<Longrightarrow> i < 2 ^ n"
    using argsort_set[OF assms, of ?ks] by simp
  then have "map (\<lambda>i. spectator_bits ?S ([0..<2 ^ n] ! i)) (as ?ks) = map ((!) ?ks) (as ?ks)"
    by (intro map_cong refl) simp
  then show ?thesis unfolding grouped_bases_def by (simp add: comp_def)
qed

lemma sorted_map_div: "sorted (map (\<lambda>i. i div M) [0..<N])" for M :: nat
  by (simp add: sorted_map sorted_wrt_iff_nth_less div_le_mono)

lemma spectator_bits_grouped:
  assumes "argsort_spec as" "distinct P" "\<forall>q\<in>set P. 0 \<le> q \<and> q < int n"
  shows "map (spectator_bits (filter (\<lambda>x. int x \<notin> set P) [0..<n])) (grouped_bases as P n) =
         map (\<lambda>i. i div 2 ^ length P) [0..<2 ^ n]"
proof (rule sorted_same_mset_eq)
  let ?S = "filter (\<lambda>x. int x \<notin> set P) [0..<n]"
  let ?M = "2 ^ length P :: nat"
  have "mset (map (spectator_bits ?S) (grouped_bases as P n)) =
        image_mset (spectator_bits ?S) (mset [0..<2 ^ n])"
    using mset_grouped_bases[OF assms(1), of P n] by (simp only: mset_map)
  also have "\<dots> = image_mset (\<lambda>b. packed_index P n b div ?M) (mset [0..<2 ^ n])"
    by (simp only: packed_index_div)
  also have "\<dots> = image_mset (\<lambda>x. x div ?M) (mset (map (packed_index P n) [0..<2 ^ n]))"
    by (simp add: image_mset.compositionality comp_def)
  also have "\<dots> = image_mset (\<lambda>x. x div ?M) (mset [0..<2 ^ n])"
    using mset_packed_index[OF assms(2,3) refl] by (simp only:)
  finally show "mset (map (spectator_bits ?S) (grouped_bases as P n)) =
                mset (map (\<lambda>i. i div ?M) [0..<2 ^ n])"
    by simp
  show "sorted (map (spectator_bits ?S) (grouped_bases as P n))"
    unfolding spectator_keys_grouped[OF assms(1)]
    by (rule argsort_sorted[OF assms(1)])
  show "sorted (map (\<lambda>i. i div ?M) [0..<2 ^ n])" by (rule sorted_map_div)
qed

lemma spectator_bits_grouped_nth:
  assumes "argsort_spec as" "distinct P" "\<forall>q\<in>set P. 0 \<le> q \<and> q < int n" "i < 2 ^ n"
  shows "spectator_bits (filter (\<lambda>x. int x \<notin> set P) [0..<n]) (grouped_bases as P n ! i) =
         i div 2 ^ length P"
proof -
  let ?S = "filter (\<lambda>x. int x \<notin> set P) [0..<n]"
  have "map (spectator_bits ?S) (grouped_bases as P n) ! i =
        map (\<lambda>i. i div 2 ^ length P) [0..<2 ^ n] ! i"
    by (simp only: spectator_bits_grouped[OF assms(1,2,3)])
  then show ?thesis
    using assms(4) length_grouped_bases[OF assms(1), of P n] by simp
qed

text \<open>The loop of the constructor sorts block after block.\<close>

lemma and_then_return: "and_then r (for_loop [] body) = r"
  by (cases r) simp_all

lemma slice_cong_drop: "drop i xs = drop i ys \<Longrightarrow> slice xs i j = slice ys i j"
  by (simp add: slice_def)

lemma sort_loop_blocks:
  assumes as: "argsort_spec as" and len: "length gbits = length bs" and M: "0 < M"
  shows "K * M \<le> length bs \<Longrightarrow>
         for_loop (map (\<lambda>k. k * M) [0..<K]) (sort_block as gbits M) bs =
         Inr (concat (map (\<lambda>g. map ((!) (slice bs (g * M) (g * M + M)))
                                 (as (slice gbits (g * M) (g * M + M)))) [0..<K]) @
              drop (K * M) bs)"
proof (induction K)
  case 0
  show ?case by simp
next
  case (Suc K)
  let ?sb = "\<lambda>g. map ((!) (slice bs (g * M) (g * M + M))) (as (slice gbits (g * M) (g * M + M)))"
  let ?X = "concat (map ?sb [0..<K])"
  let ?bsK = "?X @ drop (K * M) bs"
  have KM: "K * M \<le> length bs" "K * M + M \<le> length bs" using Suc.prems by simp_all
  have lsb: "length (?sb g) = M" if "g < K" for g
  proof -
    have "g * M + M \<le> K * M" using that by (metis Suc_leI mult_Suc mult_le_mono1 add.commute)
    then have "g * M + M \<le> length gbits" using KM(1) len by simp
    then show ?thesis using argsort_length[OF as, of "slice gbits (g * M) (g * M + M)"]
      by (simp add: length_slice)
  qed
  have lX: "length ?X = K * M"
    using length_concat_uniform[of "[0..<K]" ?sb M] lsb by simp
  have lbsK: "length gbits = length ?bsK" using lX KM(1) len by simp
  have tk: "take (K * M) ?bsK = ?X" using lX by simp
  have dr: "drop (K * M) ?bsK = drop (K * M) bs" using lX by simp
  have sl: "slice ?bsK (K * M) (K * M + M) = slice bs (K * M) (K * M + M)"
    using dr by (rule slice_cong_drop)
  have lsl: "length (slice bs (K * M) (K * M + M)) = M"
    using KM(2) by (simp add: length_slice)
  have dr2: "drop (K * M + M) ?bsK = drop (Suc K * M) bs"
  proof -
    have "drop (K * M + M) ?bsK = drop M (drop (K * M) ?bsK)" by (simp only: drop_drop add.commute)
    also have "\<dots> = drop M (drop (K * M) bs)" by (simp only: dr)
    also have "\<dots> = drop (Suc K * M) bs" by (simp add: add.commute)
    finally show ?thesis .
  qed
  have "sort_block as gbits M (K * M) ?bsK =
          Inr (take (K * M) ?bsK @
               map ((!) (slice ?bsK (K * M) (K * M + M))) (as (slice gbits (K * M) (K * M + M))) @
               drop (K * M + length (slice ?bsK (K * M) (K * M + M))) ?bsK)"
    by (rule sort_block_value[OF as lbsK])
  also have "\<dots> = Inr (?X @ ?sb K @ drop (Suc K * M) bs)"
    by (simp only: sl lsl tk dr2)
  finally have step: "sort_block as gbits M (K * M) ?bsK = Inr (?X @ ?sb K @ drop (Suc K * M) bs)" .
  have "for_loop (map (\<lambda>k. k * M) [0..<Suc K]) (sort_block as gbits M) bs =
        and_then (Inr ?bsK) (\<lambda>b. sort_block as gbits M (K * M) b)"
    using Suc.IH[OF KM(1)] by (simp add: for_loop_append and_then_return)
  also have "\<dots> = Inr (?X @ ?sb K @ drop (Suc K * M) bs)" using step by simp
  finally show ?case by simp
qed

lemma block_count:
  fixes G M :: nat
  assumes "0 < M"
  shows "(G * M + M - 1) div M = G"
proof (rule div_nat_eqI)
  show "M * G \<le> G * M + M - 1" using assms by (simp add: mult.commute)
  show "G * M + M - 1 < M * Suc G" using assms by (simp add: mult.commute)
qed

lemma slice_map: "slice (map f xs) i j = map f (slice xs i j)"
  by (simp add: slice_def take_map drop_map)

lemma slice_nth: "i + a < length xs \<Longrightarrow> a < j - i \<Longrightarrow> slice xs i j ! a = xs ! (i + a)"
  by (simp add: slice_def)

lemma register_size_split:
  assumes "distinct P" "\<forall>q\<in>set P. 0 \<le> q \<and> q < int n"
  shows "(2::nat) ^ n = 2 ^ (n - length P) * 2 ^ length P" and "length P \<le> n"
proof -
  show l: "length P \<le> n" using length_specpos[OF assms] by simp
  have "(2::nat) ^ n = 2 ^ ((n - length P) + length P)" using l by simp
  then show "(2::nat) ^ n = 2 ^ (n - length P) * 2 ^ length P" by (simp only: power_add)
qed

lemma LazyGate_value:
  assumes "argsort_spec as" "distinct P" "\<forall>q\<in>set P. 0 \<le> q \<and> q < int n"
  shows "LazyGate as U P n =
           Inr \<lparr>qreg_size = n, lmatrix = U, msize = 2 ^ length P, qsize = 2 ^ n,
                bases = concat (map (sorted_block as P n) [0..<2 ^ (n - length P)]),
                qbpos = P, specpos = filter (\<lambda>x. int x \<notin> set P) [0..<n]\<rparr>"
proof -
  let ?M = "2 ^ length P :: nat"
  let ?G = "2 ^ (n - length P) :: nat"
  let ?b1 = "grouped_bases as P n"
  have nn: "\<forall>q\<in>set P. 0 \<le> q" using assms(3) by simp
  have N: "(2::nat) ^ n = ?G * ?M" by (rule register_size_split[OF assms(2,3)])
  have lb: "length ?b1 = ?G * ?M" using length_grouped_bases[OF assms(1), of P n] N by simp
  have bc: "(?G * ?M + ?M - 1) div ?M = ?G" by (rule block_count) simp
  have rng: "py_range 0 (2 ^ n) ?M = map (\<lambda>k. k * ?M) [0..<?G]"
    unfolding py_range_blocks N by (simp only: bc)
  have lg: "length (map (target_bits P) ?b1) = length ?b1" by simp
  have le: "?G * ?M \<le> length ?b1" using lb by simp
  have Mpos: "0 < ?M" by simp
  have sb: "(\<lambda>g. map ((!) (slice ?b1 (g * ?M) (g * ?M + ?M)))
                   (as (slice (map (target_bits P) ?b1) (g * ?M) (g * ?M + ?M)))) =
            sorted_block as P n"
    by (rule ext) (simp only: sorted_block_def)
  have "for_loop (py_range 0 (2 ^ n) ?M) (sort_block as (map (target_bits P) ?b1) ?M) ?b1 =
        Inr (concat (map (sorted_block as P n) [0..<?G]) @ drop (?G * ?M) ?b1)"
    unfolding rng using sort_loop_blocks[OF assms(1) lg Mpos le] by (simp only: sb)
  then have "for_loop (py_range 0 (2 ^ n) ?M) (sort_block as (map (target_bits P) ?b1) ?M) ?b1 =
        Inr (concat (map (sorted_block as P n) [0..<?G]))"
    using lb by simp
  then show ?thesis unfolding LazyGate_nonneg[OF assms(1) nn] by simp
qed

lemma block_in_range:
  fixes g G M :: nat
  assumes "g < G"
  shows "g * M + M \<le> G * M"
proof -
  have "Suc g * M \<le> G * M" using assms by (intro mult_le_mono1) simp
  then show ?thesis by (simp add: add.commute)
qed

lemma sorted_block_props:
  assumes as: "argsort_spec as" and d: "distinct P" and r: "\<forall>q\<in>set P. 0 \<le> q \<and> q < int n"
      and g: "g < 2 ^ (n - length P)"
  shows "length (sorted_block as P n g) = 2 ^ length P"
    and "sorted (map (target_bits P) (sorted_block as P n g))"
    and "\<And>a. a < 2 ^ length P \<Longrightarrow>
           spectator_bits (filter (\<lambda>x. int x \<notin> set P) [0..<n]) (sorted_block as P n g ! a) = g"
proof -
  let ?M = "2 ^ length P :: nat"
  let ?G = "2 ^ (n - length P) :: nat"
  let ?b1 = "grouped_bases as P n"
  let ?blk = "slice ?b1 (g * ?M) (g * ?M + ?M)"
  let ?keys = "slice (map (target_bits P) ?b1) (g * ?M) (g * ?M + ?M)"
  have N: "(2::nat) ^ n = ?G * ?M" by (rule register_size_split[OF d r])
  have lb: "length ?b1 = ?G * ?M" using length_grouped_bases[OF as, of P n] N by simp
  have gr: "g * ?M + ?M \<le> ?G * ?M" using g by (rule block_in_range)
  have lblk: "length ?blk = ?M" using gr lb by (simp add: length_slice)
  have keys: "?keys = map (target_bits P) ?blk" by (rule slice_map)
  have lkeys: "length ?keys = ?M" using lblk keys by simp
  have perm: "set (as ?keys) = {0..<?M}" using argsort_set[OF as, of ?keys] lkeys by simp
  have sbd: "sorted_block as P n g = map ((!) ?blk) (as ?keys)" by (simp only: sorted_block_def)
  show len: "length (sorted_block as P n g) = ?M"
    unfolding sbd using argsort_length[OF as, of ?keys] lkeys by simp
  have "map (target_bits P) (map ((!) ?blk) (as ?keys)) =
        map (\<lambda>i. target_bits P (?blk ! i)) (as ?keys)"
    by (simp add: comp_def)
  also have "\<dots> = map ((!) ?keys) (as ?keys)"
  proof (rule map_cong[OF refl])
    fix i assume "i \<in> set (as ?keys)"
    then have "i < length ?blk" using perm lblk by simp
    then show "target_bits P (?blk ! i) = ?keys ! i" by (simp add: keys)
  qed
  finally have mm: "map (target_bits P) (sorted_block as P n g) = map ((!) ?keys) (as ?keys)"
    by (simp only: sbd)
  show "sorted (map (target_bits P) (sorted_block as P n g))"
    by (simp only: mm argsort_sorted[OF as])
  fix a assume a: "a < ?M"
  have "a < length (as ?keys)" using a argsort_length[OF as, of ?keys] lkeys by simp
  then have "as ?keys ! a \<in> set (as ?keys)" by (rule nth_mem)
  then have j: "as ?keys ! a < ?M" using perm by simp
  have ia: "g * ?M + as ?keys ! a < length ?b1" using j gr lb by simp
  have "sorted_block as P n g ! a = ?blk ! (as ?keys ! a)"
    unfolding sbd using \<open>a < length (as ?keys)\<close> by simp
  also have "\<dots> = ?b1 ! (g * ?M + as ?keys ! a)"
    using ia j by (intro slice_nth) simp_all
  finally have e: "sorted_block as P n g ! a = ?b1 ! (g * ?M + as ?keys ! a)" .
  have "g * ?M + as ?keys ! a < 2 ^ n" using ia lb N by simp
  from spectator_bits_grouped_nth[OF as d r this]
  show "spectator_bits (filter (\<lambda>x. int x \<notin> set P) [0..<n]) (sorted_block as P n g ! a) = g"
    unfolding e using j by simp
qed

lemma table_nth:
  assumes as: "argsort_spec as" and d: "distinct P" and r: "\<forall>q\<in>set P. 0 \<le> q \<and> q < int n"
      and i: "i < 2 ^ n"
  shows "concat (map (sorted_block as P n) [0..<2 ^ (n - length P)]) ! i =
         sorted_block as P n (i div 2 ^ length P) ! (i mod 2 ^ length P)"
proof -
  let ?M = "2 ^ length P :: nat"
  let ?G = "2 ^ (n - length P) :: nat"
  have N: "(2::nat) ^ n = ?G * ?M" by (rule register_size_split[OF d r])
  have dv: "i div ?M < ?G" using i N by (simp add: less_mult_imp_div_less)
  have "\<forall>g\<in>set [0..<?G]. length (sorted_block as P n g) = ?M"
    using sorted_block_props(1)[OF as d r] by simp
  moreover have "i < length [0..<?G] * ?M" using i N by simp
  ultimately have "concat (map (sorted_block as P n) [0..<?G]) ! i =
        sorted_block as P n ([0..<?G] ! (i div ?M)) ! (i mod ?M)"
    by (rule concat_uniform_nth)
  then show ?thesis using dv by simp
qed

lemma table_packed_index:
  assumes as: "argsort_spec as" and d: "distinct P" and r: "\<forall>q\<in>set P. 0 \<le> q \<and> q < int n"
      and m: "mset (concat (map (sorted_block as P n) [0..<2 ^ (n - length P)])) = mset [0..<2 ^ n]"
  shows "map (packed_index P n) (concat (map (sorted_block as P n) [0..<2 ^ (n - length P)])) =
         [0..<2 ^ n]"
proof (rule sorted_same_mset_eq)
  let ?M = "2 ^ length P :: nat"
  let ?G = "2 ^ (n - length P) :: nat"
  let ?S = "filter (\<lambda>x. int x \<notin> set P) [0..<n]"
  let ?b2 = "concat (map (sorted_block as P n) [0..<?G])"
  have N: "(2::nat) ^ n = ?G * ?M" by (rule register_size_split[OF d r])
  have l2: "length ?b2 = 2 ^ n" using mset_eq_length[OF m] by simp
  show "mset (map (packed_index P n) ?b2) = mset [0..<2 ^ n]"
    using d r m by (rule mset_packed_index)
  show "sorted [0..<(2::nat) ^ n]" by simp
  have val: "packed_index P n (?b2 ! i) =
             i div ?M * ?M + target_bits P (sorted_block as P n (i div ?M) ! (i mod ?M))"
    if i: "i < 2 ^ n" for i
  proof -
    have dv: "i div ?M < ?G" using i N by (simp add: less_mult_imp_div_less)
    have md: "i mod ?M < ?M" by simp
    show ?thesis
      unfolding table_nth[OF as d r i] packed_index_def
      using sorted_block_props(3)[OF as d r dv md] by simp
  qed
  show "sorted (map (packed_index P n) ?b2)"
    unfolding sorted_iff_nth_mono
  proof (intro allI impI)
    fix i j assume ij: "i \<le> j" and j: "j < length (map (packed_index P n) ?b2)"
    then have jN: "j < 2 ^ n" and iN: "i < 2 ^ n" using l2 by simp_all
    have dij: "i div ?M \<le> j div ?M" using ij by (rule div_le_mono)
    have "packed_index P n (?b2 ! i) \<le> packed_index P n (?b2 ! j)"
    proof (cases "i div ?M < j div ?M")
      case True
      have "packed_index P n (?b2 ! i) < i div ?M * ?M + ?M"
        unfolding val[OF iN] using target_bits_less[of P] by simp
      also have "\<dots> \<le> j div ?M * ?M" using True by (rule block_in_range)
      also have "\<dots> \<le> packed_index P n (?b2 ! j)" unfolding val[OF jN] by simp
      finally show ?thesis by simp
    next
      case False
      then have e: "i div ?M = j div ?M" using dij by simp
      have dv: "j div ?M < ?G" using jN N by (simp add: less_mult_imp_div_less)
      have "i mod ?M \<le> j mod ?M"
      proof -
        have "i div ?M * ?M + i mod ?M \<le> j div ?M * ?M + j mod ?M"
          using ij by (simp only: div_mult_mod_eq)
        then show ?thesis unfolding e by (simp only: add_le_cancel_left)
      qed
      moreover have "j mod ?M < length (map (target_bits P) (sorted_block as P n (j div ?M)))"
        using sorted_block_props(1)[OF as d r dv] by simp
      ultimately have "map (target_bits P) (sorted_block as P n (j div ?M)) ! (i mod ?M) \<le>
            map (target_bits P) (sorted_block as P n (j div ?M)) ! (j mod ?M)"
        using sorted_block_props(2)[OF as d r dv] by (intro sorted_nth_mono)
      moreover have "i mod ?M < length (sorted_block as P n (j div ?M))"
        using sorted_block_props(1)[OF as d r dv] by simp
      moreover have "j mod ?M < length (sorted_block as P n (j div ?M))"
        using sorted_block_props(1)[OF as d r dv] by simp
      ultimately show ?thesis unfolding val[OF iN] val[OF jN] e by simp
    qed
    then show "map (packed_index P n) ?b2 ! i \<le> map (packed_index P n) ?b2 ! j"
      using iN jN l2 by simp
  qed
qed

lemma LazyGate_table:
  assumes as: "argsort_spec as" and d: "distinct P" and r: "\<forall>q\<in>set P. 0 \<le> q \<and> q < int n"
  shows "\<exists>bs. LazyGate as U P n =
                Inr \<lparr>qreg_size = n, lmatrix = U, msize = 2 ^ length P, qsize = 2 ^ n,
                     bases = bs, qbpos = P,
                     specpos = filter (\<lambda>x. int x \<notin> set P) [0..<n]\<rparr> \<and>
              mset bs = mset [0..<2 ^ n] \<and> length bs = 2 ^ n \<and>
              map (packed_index P n) bs = [0..<2 ^ n]"
proof -
  let ?b2 = "concat (map (sorted_block as P n) [0..<2 ^ (n - length P)])"
  have nn: "\<forall>q\<in>set P. 0 \<le> q" using r by simp
  have v: "LazyGate as U P n =
           Inr \<lparr>qreg_size = n, lmatrix = U, msize = 2 ^ length P, qsize = 2 ^ n,
                bases = ?b2, qbpos = P, specpos = filter (\<lambda>x. int x \<notin> set P) [0..<n]\<rparr>"
    using as d r by (rule LazyGate_value)
  from LazyGate_succeeds[OF as nn, of U n] v
  have m: "mset ?b2 = mset [0..<2 ^ n]" and l: "length ?b2 = 2 ^ n" by auto
  from table_packed_index[OF as d r m] v m l show ?thesis by blast
qed

lemma fold_update_props:
  "distinct idx \<Longrightarrow> length vs = length idx \<Longrightarrow>
   length (fold (\<lambda>(i, v) ys. ys[i := v]) (zip idx vs) xs) = length xs \<and>
   (\<forall>j<length idx. idx ! j < length xs \<longrightarrow>
       fold (\<lambda>(i, v) ys. ys[i := v]) (zip idx vs) xs ! (idx ! j) = vs ! j) \<and>
   (\<forall>x. x \<notin> set idx \<longrightarrow> fold (\<lambda>(i, v) ys. ys[i := v]) (zip idx vs) xs ! x = xs ! x)"
proof (induction idx arbitrary: vs xs)
  case Nil
  then show ?case by simp
next
  case (Cons i idx)
  then obtain v vs' where vs: "vs = v # vs'" by (cases vs) auto
  have d: "distinct idx" "i \<notin> set idx" using Cons.prems(1) by simp_all
  have l: "length vs' = length idx" using Cons.prems(2) vs by simp
  note IH = Cons.IH[OF d(1) l, of "xs[i := v]"]
  let ?r = "fold (\<lambda>(i, v) ys. ys[i := v]) (zip idx vs') (xs[i := v])"
  have r: "fold (\<lambda>(i, v) ys. ys[i := v]) (zip (i # idx) vs) xs = ?r" by (simp add: vs)
  have p1: "length ?r = length xs" using IH by simp
  have p2: "?r ! ((i # idx) ! j) = vs ! j"
    if "j < length (i # idx)" "(i # idx) ! j < length xs" for j
  proof (cases j)
    case 0
    have "?r ! i = (xs[i := v]) ! i" using IH d(2) by blast
    then show ?thesis using 0 that(2) vs by simp
  next
    case (Suc j')
    then have "j' < length idx" "idx ! j' < length (xs[i := v])" using that by simp_all
    then have "?r ! (idx ! j') = vs' ! j'" using IH by blast
    then show ?thesis using Suc vs by simp
  qed
  have p3: "?r ! x = xs ! x" if "x \<notin> set (i # idx)" for x
  proof -
    have "x \<notin> set idx" "x \<noteq> i" using that by simp_all
    then have "?r ! x = (xs[i := v]) ! x" using IH by blast
    then show ?thesis using \<open>x \<noteq> i\<close> by simp
  qed
  show ?case unfolding r using p1 p2 p3 by blast
qed

lemma np_put_props:
  assumes "distinct idx" "length vals = length idx" "\<forall>i\<in>set idx. i < length xs"
  shows "\<exists>ys. np_put xs idx vals = Inr ys \<and> length ys = length xs \<and>
              (\<forall>j<length idx. ys ! (idx ! j) = vals ! j) \<and>
              (\<forall>x. x \<notin> set idx \<longrightarrow> ys ! x = xs ! x)"
proof -
  let ?ys = "fold (\<lambda>(i, v) ys. ys[i := v]) (zip idx vals) xs"
  have v: "np_put xs idx vals = Inr ?ys"
    using assms(2,3) by (simp add: np_put_def np_broadcast_same)
  have "\<forall>j<length idx. idx ! j < length xs" using assms(3) by simp
  then show ?thesis using v fold_update_props[OF assms(1,2), of xs] by blast
qed

lemma distinct_slice: "distinct xs \<Longrightarrow> distinct (slice xs i j)"
  by (simp add: slice_def)

lemma set_slice: "set (slice xs i j) \<subseteq> set xs"
  unfolding slice_def using set_take_subset set_drop_subset by fast

lemma np_take_Inr: "\<forall>i\<in>set idx. i < length xs \<Longrightarrow> np_take xs idx = Inr (map ((!) xs) idx)"
  by (simp add: np_take_def)

lemma apply_block_props:
  assumes bs: "distinct bs" "length bs = G * M" "\<forall>x\<in>set bs. x < length st"
      and K: "K < G" and U: "length U = M" "snd (shape U) = M" and M: "0 < M"
      and new: "length new = length st"
      and self: "bases self = bs" "msize self = M" "lmatrix self = U"
  shows "\<exists>new'. apply_block self st (K * M) new = Inr new' \<and> length new' = length st \<and>
           (\<forall>i<G * M. new' ! (bs ! i) =
                (if i div M = K then block_product U M bs st i else new ! (bs ! i)))"
proof -
  let ?idx = "slice bs (K * M) (K * M + M)"
  let ?prod = "map (\<lambda>r. vdot r (map ((!) st) ?idx)) U"
  have gr: "K * M + M \<le> G * M" using K by (rule block_in_range)
  have lidx: "length ?idx = M" using gr bs(2) by (simp add: length_slice)
  have didx: "distinct ?idx" using bs(1) by (rule distinct_slice)
  have sidx: "\<forall>i\<in>set ?idx. i < length st" using set_slice[of bs "K * M" "K * M + M"] bs(3) by auto
  have nidx: "?idx ! a = bs ! (K * M + a)" if "a < M" for a
    using that gr bs(2) by (intro slice_nth) simp_all
  have tk: "np_take st ?idx = Inr (map ((!) st) ?idx)" using sidx by (rule np_take_Inr)
  have dt: "np_dot U (map ((!) st) ?idx) = Inr ?prod"
    using U(2) lidx by (simp add: np_dot_def)
  have lp: "length ?prod = length ?idx" using U(1) lidx by simp
  have sidx': "\<forall>i\<in>set ?idx. i < length new" using sidx new by simp
  from np_put_props[OF didx lp sidx']
  obtain ys where ys: "np_put new ?idx ?prod = Inr ys" "length ys = length new"
    "\<And>j. j < length ?idx \<Longrightarrow> ys ! (?idx ! j) = ?prod ! j"
    "\<And>x. x \<notin> set ?idx \<Longrightarrow> ys ! x = new ! x"
    by blast
  have ab: "apply_block self st (K * M) new = Inr ys"
    unfolding apply_block_def self using tk dt ys(1) by simp
  have ent: "ys ! (bs ! i) = (if i div M = K then block_product U M bs st i else new ! (bs ! i))"
    if i: "i < G * M" for i
  proof (cases "i div M = K")
    case True
    have a: "i mod M < M" using M by simp
    have ie: "i = K * M + i mod M" using True div_mult_mod_eq[of i M] by simp
    have "bs ! i = ?idx ! (i mod M)" using nidx[OF a] ie by simp
    then have "ys ! (bs ! i) = ?prod ! (i mod M)" using ys(3)[of "i mod M"] a lidx by simp
    also have "\<dots> = vdot (U ! (i mod M)) (map ((!) st) ?idx)" using a U(1) by simp
    finally show ?thesis using True by (simp add: block_product_def)
  next
    case False
    have "bs ! i \<notin> set ?idx"
    proof
      assume "bs ! i \<in> set ?idx"
      then obtain a where a: "a < length ?idx" "?idx ! a = bs ! i" by (metis in_set_conv_nth)
      then have aM: "a < M" using lidx by simp
      have "bs ! (K * M + a) = bs ! i" using nidx[OF aM] a(2) by simp
      moreover have "K * M + a < length bs" using aM gr bs(2) by simp
      moreover have "i < length bs" using i bs(2) by simp
      ultimately have "K * M + a = i" using bs(1) by (simp add: nth_eq_iff_index_eq)
      then have "i div M = K" using aM by auto
      then show False using False by simp
    qed
    then show ?thesis using ys(4) False by simp
  qed
  show ?thesis using ab ys(2) new ent by simp
qed

lemma apply_loop_props:
  assumes bs: "distinct bs" "length bs = G * M" "\<forall>x\<in>set bs. x < length st"
      and U: "length U = M" "snd (shape U) = M" and M: "0 < M"
      and self: "bases self = bs" "msize self = M" "lmatrix self = U"
  shows "K \<le> G \<Longrightarrow>
         \<exists>new. for_loop (map (\<lambda>k. k * M) [0..<K]) (apply_block self st)
                  (replicate (length st) 0) = Inr new \<and> length new = length st \<and>
               (\<forall>i<G * M. new ! (bs ! i) = (if i < K * M then block_product U M bs st i else 0))"
proof (induction K)
  case 0
  have "\<forall>i<G * M. bs ! i < length st" using bs(2,3) by simp
  then show ?case by simp
next
  case (Suc K)
  then have K: "K < G" "K \<le> G" by simp_all
  from Suc.IH[OF K(2)] obtain new where new:
    "for_loop (map (\<lambda>k. k * M) [0..<K]) (apply_block self st) (replicate (length st) 0) = Inr new"
    "length new = length st"
    "\<And>i. i < G * M \<Longrightarrow> new ! (bs ! i) = (if i < K * M then block_product U M bs st i else 0)"
    by blast
  from apply_block_props[OF bs K(1) U M new(2) self]
  obtain new' where new': "apply_block self st (K * M) new = Inr new'" "length new' = length st"
    "\<And>i. i < G * M \<Longrightarrow> new' ! (bs ! i) =
            (if i div M = K then block_product U M bs st i else new ! (bs ! i))"
    by blast
  have split: "i < Suc K * M \<longleftrightarrow> i < K * M \<or> i div M = K" for i
  proof -
    have "i < Suc K * M \<longleftrightarrow> i div M < Suc K" using M by (simp add: div_less_iff_less_mult)
    moreover have "i < K * M \<longleftrightarrow> i div M < K" using M by (simp add: div_less_iff_less_mult)
    ultimately show ?thesis by auto
  qed
  have lp: "for_loop (map (\<lambda>k. k * M) [0..<Suc K]) (apply_block self st)
              (replicate (length st) 0) = Inr new'"
    using new(1) new'(1) by (simp add: for_loop_append and_then_return)
  have ent: "new' ! (bs ! i) = (if i < Suc K * M then block_product U M bs st i else 0)"
    if i: "i < G * M" for i
  proof (cases "i div M = K")
    case True
    then show ?thesis using new'(3)[OF i] split[of i] by simp
  next
    case False
    then show ?thesis using new'(3)[OF i] new(3)[OF i] split[of i] by simp
  qed
  show ?case using lp new'(2) ent by blast
qed

lemma same_spectators_iff:
  "same_spectators P n r c \<longleftrightarrow>
     spectator_bits (filter (\<lambda>x. int x \<notin> set P) [0..<n]) r =
     spectator_bits (filter (\<lambda>x. int x \<notin> set P) [0..<n]) c"
proof
  let ?S = "filter (\<lambda>x. int x \<notin> set P) [0..<n]"
  assume s: "same_spectators P n r c"
  show "spectator_bits ?S r = spectator_bits ?S c"
  proof (rule bit_eqI)
    fix j
    show "bit (spectator_bits ?S r) j \<longleftrightarrow> bit (spectator_bits ?S c) j"
    proof (cases "j < length ?S")
      case True
      then have "?S ! j \<in> set ?S" by (rule nth_mem)
      then have "?S ! j < n" "int (?S ! j) \<notin> set P" by simp_all
      then have "bit r (?S ! j) = bit c (?S ! j)" using s by (auto simp: same_spectators_def)
      then show ?thesis using True by (simp add: bit_spectator_bits)
    next
      case False
      then show ?thesis by (simp add: bit_spectator_bits)
    qed
  qed
next
  let ?S = "filter (\<lambda>x. int x \<notin> set P) [0..<n]"
  assume e: "spectator_bits ?S r = spectator_bits ?S c"
  show "same_spectators P n r c"
    unfolding same_spectators_def
  proof
    fix q assume "q \<in> set [0..<n]"
    then have q: "q < n" by simp
    show "int q \<in> set P \<or> bit r q = bit c q"
    proof (cases "int q \<in> set P")
      case True
      then show ?thesis by simp
    next
      case False
      then have "q \<in> set ?S" using q by simp
      then obtain j where j: "j < length ?S" "?S ! j = q" by (metis in_set_conv_nth)
      have "bit (spectator_bits ?S r) j = bit r q" using j by (simp add: bit_spectator_bits)
      moreover have "bit (spectator_bits ?S c) j = bit c q" using j by (simp add: bit_spectator_bits)
      ultimately show ?thesis using e by simp
    qed
  qed
qed

lemma sum_block:
  fixes F :: "nat \<Rightarrow> complex"
  assumes "g < G" "0 < M"
  shows "(\<Sum>i<G * M. if i div M = g then F i else 0) = (\<Sum>a<M. F (g * M + a))"
proof -
  have gr: "g * M + M \<le> G * M" using assms(1) by (rule block_in_range)
  have set_eq: "{i \<in> {..<G * M}. i div M = g} = {0 + g * M..<M + g * M}"
  proof (intro equalityI subsetI)
    fix i assume "i \<in> {i \<in> {..<G * M}. i div M = g}"
    then have d: "i div M = g" by simp
    have "i div M * M \<le> i" by simp
    moreover have "i < i div M * M + M" using assms(2) by (simp add: dividend_less_div_times add.commute)
    ultimately show "i \<in> {0 + g * M..<M + g * M}" using d by (simp add: add.commute)
  next
    fix i assume "i \<in> {0 + g * M..<M + g * M}"
    then have i: "g * M \<le> i" "i < g * M + M" by (simp_all add: add.commute)
    then obtain a where a: "i = g * M + a" "a < M" by (metis add_less_cancel_left le_Suc_ex)
    then have "i div M = g" by simp
    then show "i \<in> {i \<in> {..<G * M}. i div M = g}" using i(2) gr by simp
  qed
  have "(\<Sum>i<G * M. if i div M = g then F i else 0) = sum F {i \<in> {..<G * M}. i div M = g}"
    by (rule sum.inter_filter[symmetric]) simp
  also have "\<dots> = sum F {0 + g * M..<M + g * M}" by (simp only: set_eq)
  also have "\<dots> = (\<Sum>a = 0..<M. F (a + g * M))" by (rule sum.shift_bounds_nat_ivl)
  also have "\<dots> = (\<Sum>a<M. F (g * M + a))" by (simp add: atLeast0LessThan add.commute)
  finally show ?thesis .
qed

lemma sum_table:
  fixes h :: "nat \<Rightarrow> complex"
  assumes "distinct bs" "set bs = {0..<N}" "length bs = N"
  shows "(\<Sum>c<N. h c) = (\<Sum>i<N. h (bs ! i))"
proof -
  have "bij_betw ((!) bs) {..<length bs} (set bs)"
    using assms(1) by (intro bij_betw_nth) simp_all
  then have b: "bij_betw ((!) bs) {..<N} {..<N}"
    using assms(2,3) by (simp add: lessThan_atLeast0)
  show ?thesis using sum.reindex_bij_betw[OF b, of h] by simp
qed

lemma block_product_sum:
  assumes U: "rect U" "shape U = (M, M)" and bs: "length bs = G * M"
      and i: "i < G * M" and M: "0 < M"
  shows "block_product U M bs st i =
         (\<Sum>a<M. U ! (i mod M) ! a * st ! (bs ! (i div M * M + a)))"
proof -
  let ?g = "i div M"
  have lU: "length U = M" "snd (shape U) = M" using U(2) by (simp_all add: shape_def)
  have g: "?g < G" using i by (simp add: less_mult_imp_div_less)
  have gr: "?g * M + M \<le> G * M" using g by (rule block_in_range)
  have lrow: "length (U ! (i mod M)) = M"
    using rect_nth[OF U(1), of "i mod M"] lU M by simp
  have lsl: "length (slice bs (?g * M) (?g * M + M)) = M"
    using gr bs by (simp add: length_slice)
  have "block_product U M bs st i =
        (\<Sum>a<M. U ! (i mod M) ! a * map ((!) st) (slice bs (?g * M) (?g * M + M)) ! a)"
    unfolding block_product_def vdot_sum using lrow lsl by simp
  also have "\<dots> = (\<Sum>a<M. U ! (i mod M) ! a * st ! (bs ! (?g * M + a)))"
  proof (rule sum.cong[OF refl])
    fix a assume "a \<in> {..<M}"
    then have a: "a < M" by simp
    have "slice bs (?g * M) (?g * M + M) ! a = bs ! (?g * M + a)"
      using a gr bs by (intro slice_nth) simp_all
    then show "U ! (i mod M) ! a * map ((!) st) (slice bs (?g * M) (?g * M + M)) ! a =
               U ! (i mod M) ! a * st ! (bs ! (?g * M + a))"
      using a lsl by simp
  qed
  finally show ?thesis .
qed

lemma dense_row_sum:
  fixes U :: mat and st :: vec
  assumes d: "distinct P" and r: "\<forall>q\<in>set P. 0 \<le> q \<and> q < int n"
      and bs: "distinct bs" "set bs = {0..<2 ^ n}" "length bs = 2 ^ n"
              "map (packed_index P n) bs = [0..<2 ^ n]"
      and i: "i < 2 ^ n"
  shows "(\<Sum>c<2 ^ n. (if same_spectators P n (bs ! i) c
                        then U ! target_bits P (bs ! i) ! target_bits P c else 0) * st ! c) =
         (\<Sum>a<2 ^ length P. U ! (i mod 2 ^ length P) ! a * st ! (bs ! (i div 2 ^ length P * 2 ^ length P + a)))"
proof -
  let ?M = "2 ^ length P :: nat"
  let ?G = "2 ^ (n - length P) :: nat"
  let ?S = "filter (\<lambda>x. int x \<notin> set P) [0..<n]"
  let ?g = "i div ?M"
  have N: "(2::nat) ^ n = ?G * ?M" by (rule register_size_split[OF d r])
  have g: "?g < ?G" using i N by (simp add: less_mult_imp_div_less)
  have pk: "packed_index P n (bs ! j) = j" if "j < 2 ^ n" for j
  proof -
    have "map (packed_index P n) bs ! j = [0..<2 ^ n] ! j" by (simp only: bs(4))
    then show ?thesis using that bs(3) by simp
  qed
  have sk: "spectator_bits ?S (bs ! j) = j div ?M" if "j < 2 ^ n" for j
    using packed_index_div[of P n "bs ! j"] pk[OF that] by simp
  have tk: "target_bits P (bs ! j) = j mod ?M" if "j < 2 ^ n" for j
    using packed_index_mod[of P n "bs ! j"] pk[OF that] by simp
  let ?h = "\<lambda>c. (if same_spectators P n (bs ! i) c
                  then U ! target_bits P (bs ! i) ! target_bits P c else 0) * st ! c"
  let ?F = "\<lambda>j. U ! (i mod ?M) ! (j mod ?M) * st ! (bs ! j)"
  have "(\<Sum>c<2 ^ n. ?h c) = (\<Sum>j<2 ^ n. ?h (bs ! j))"
    by (rule sum_table[OF bs(1,2,3), of ?h])
  also have "\<dots> = (\<Sum>j<2 ^ n. if j div ?M = ?g then ?F j else 0)"
  proof (rule sum.cong[OF refl])
    fix j assume "j \<in> {..<(2::nat) ^ n}"
    then have j: "j < 2 ^ n" by simp
    show "?h (bs ! j) = (if j div ?M = ?g then ?F j else 0)"
      unfolding same_spectators_iff sk[OF i] sk[OF j] tk[OF i] tk[OF j] by auto
  qed
  also have "\<dots> = (\<Sum>j<?G * ?M. if j div ?M = ?g then ?F j else 0)" by (simp only: N)
  also have "\<dots> = (\<Sum>a<?M. ?F (?g * ?M + a))" by (rule sum_block[OF g]) simp
  also have "\<dots> = (\<Sum>a<?M. U ! (i mod ?M) ! a * st ! (bs ! (?g * ?M + a)))"
    by (rule sum.cong[OF refl]) simp
  finally show ?thesis .
qed

lemma LazyGate_apply_value:
  assumes as: "argsort_spec as" and U: "rect U" "shape U = (2 ^ length P, 2 ^ length P)"
      and d: "distinct P" and r: "\<forall>q\<in>set P. 0 \<le> q \<and> q < int n"
      and st: "length (state R) = 2 ^ n"
  shows "\<exists>g bs new. LazyGate as U P n = Inr g \<and> bases g = bs \<and>
            distinct bs \<and> set bs = {0..<2 ^ n} \<and> length bs = 2 ^ n \<and>
            map (packed_index P n) bs = [0..<2 ^ n] \<and>
            LazyGate_apply g R = Inr (QReg (nbits R) new) \<and> length new = 2 ^ n \<and>
            (\<forall>i<2 ^ n. new ! (bs ! i) = block_product U (2 ^ length P) bs (state R) i)"
proof -
  let ?M = "2 ^ length P :: nat"
  let ?G = "2 ^ (n - length P) :: nat"
  from LazyGate_table[OF as d r, of U]
  obtain bs where bs: "LazyGate as U P n =
                Inr \<lparr>qreg_size = n, lmatrix = U, msize = ?M, qsize = 2 ^ n,
                     bases = bs, qbpos = P,
                     specpos = filter (\<lambda>x. int x \<notin> set P) [0..<n]\<rparr>"
      "mset bs = mset [0..<2 ^ n]" "length bs = 2 ^ n"
      "map (packed_index P n) bs = [0..<2 ^ n]"
    by blast
  let ?g = "\<lparr>qreg_size = n, lmatrix = U, msize = ?M, qsize = 2 ^ n,
                     bases = bs, qbpos = P,
                     specpos = filter (\<lambda>x. int x \<notin> set P) [0..<n]\<rparr>"
  have N: "(2::nat) ^ n = ?G * ?M" by (rule register_size_split[OF d r])
  have dist: "distinct bs" using mset_eq_imp_distinct_iff[OF bs(2)] by simp
  have sbs: "set bs = {0..<2 ^ n}" using mset_eq_setD[OF bs(2)] by simp
  have lbs: "length bs = ?G * ?M" using bs(3) N by simp
  have inr: "\<forall>x\<in>set bs. x < length (state R)" using sbs st by simp
  have lU: "length U = ?M" "snd (shape U) = ?M" using U(2) by (simp_all add: shape_def)
  have Mpos: "0 < ?M" by simp
  have bc: "(?G * ?M + ?M - 1) div ?M = ?G" by (rule block_count) simp
  have rng: "py_range 0 (2 ^ n) ?M = map (\<lambda>k. k * ?M) [0..<?G]"
    unfolding py_range_blocks N by (simp only: bc)
  have sf: "bases ?g = bs" "msize ?g = ?M" "lmatrix ?g = U" by simp_all
  from apply_loop_props[OF dist lbs inr lU Mpos sf order_refl]
  obtain new where new:
    "for_loop (map (\<lambda>k. k * ?M) [0..<?G]) (apply_block ?g (state R))
       (replicate (length (state R)) 0) = Inr new"
    "length new = length (state R)"
    "\<And>i. i < ?G * ?M \<Longrightarrow> new ! (bs ! i) =
        (if i < ?G * ?M then block_product U ?M bs (state R) i else 0)"
    by blast
  have ap: "LazyGate_apply ?g R = Inr (QReg (nbits R) new)"
    unfolding LazyGate_apply_def using new(1) by (simp add: rng)
  have ent: "\<forall>i<2 ^ n. new ! (bs ! i) = block_product U ?M bs (state R) i"
    using new(3) N by simp
  show ?thesis using bs(1,4) dist sbs bs(3) ap new(2) st ent by (intro exI[of _ ?g] exI[of _ bs] exI[of _ new]) simp
qed

lemma rect_two: "rect [[1, 2], [3, 4]]"
  by (simp add: rect_def shape_def)

text \<open>The loop with the log of its accesses computes what the loop computes.\<close>

lemma apply_block_traced_erase:
  "apply_block_traced self st i (new, rd, wr) =
     and_then (apply_block self st i new)
       (\<lambda>new'. Inr (new', rd @ slice (bases self) i (i + msize self),
                    wr @ slice (bases self) i (i + msize self)))"
  by (simp add: apply_block_traced_def apply_block_def and_then_def split: sum.splits)

lemma apply_loop_traced_erase:
  "for_loop js (apply_block_traced self st) (new, rd, wr) =
     and_then (for_loop js (apply_block self st) new)
       (\<lambda>new'. Inr (new', rd @ concat (map (\<lambda>i. slice (bases self) i (i + msize self)) js),
                    wr @ concat (map (\<lambda>i. slice (bases self) i (i + msize self)) js)))"
proof (induction js arbitrary: new rd wr)
  case Nil
  show ?case by simp
next
  case (Cons j js)
  show ?case
  proof (cases "apply_block self st j new")
    case (Inl e)
    then show ?thesis by (simp add: apply_block_traced_erase)
  next
    case (Inr new1)
    then show ?thesis by (simp add: apply_block_traced_erase Cons.IH)
  qed
qed

lemma LazyGate_apply_traced_erase:
  assumes "qsize self = length (bases self)" "0 < msize self"
  shows "LazyGate_apply_traced self r =
           and_then (LazyGate_apply self r) (\<lambda>r'. Inr (r', bases self, bases self))"
proof -
  have c: "concat (map (\<lambda>i. slice (bases self) i (i + msize self))
                    (py_range 0 (qsize self) (msize self))) = bases self"
    unfolding assms(1) by (rule concat_slices[OF assms(2)])
  show ?thesis
    unfolding LazyGate_apply_traced_def LazyGate_apply_def apply_loop_traced_erase c
    by (cases "for_loop (py_range 0 (length (bases self)) (msize self))
                 (apply_block self (state r)) (replicate (length (state r)) 0)")
       (simp_all add: assms(1))
qed

subsection \<open>The dense embedding on adjacent positions is a Kronecker product\<close>


lemma mat_eqI:
  fixes A B :: mat
  assumes "length A = N" "length B = N"
      and "\<And>i. i < N \<Longrightarrow> length (A ! i) = C" "\<And>i. i < N \<Longrightarrow> length (B ! i) = C"
      and "\<And>i j. i < N \<Longrightarrow> j < C \<Longrightarrow> A ! i ! j = B ! i ! j"
  shows "A = B"
proof (rule nth_equalityI)
  show "length A = length B" using assms(1,2) by simp
next
  fix i assume "i < length A"
  then have i: "i < N" using assms(1) by simp
  show "A ! i = B ! i"
  proof (rule nth_equalityI)
    show "length (A ! i) = length (B ! i)" using assms(3,4)[OF i] by simp
  next
    fix j assume "j < length (A ! i)"
    then have "j < C" using assms(3)[OF i] by simp
    then show "A ! i ! j = B ! i ! j" using assms(5)[OF i] by simp
  qed
qed

lemma eye_entry: "i < N \<Longrightarrow> j < N \<Longrightarrow> eye N ! i ! j = (if i = j then 1 else 0)"
  by (simp add: eye_def)

lemma rect_eye: "0 < N \<Longrightarrow> rect (eye N)"
  unfolding eye_def by (rule rect_mat_of)

lemma shape_eye: "0 < N \<Longrightarrow> shape (eye N) = (N, N)"
  unfolding eye_def by (rule shape_mat_of)

lemma mat_of_entry: "i < N \<Longrightarrow> j < N \<Longrightarrow> mat_of f N ! i ! j = f i j"
  by simp

text \<open>Adjacent target positions, the highest first: \<open>p + m - 1, \<dots>, p\<close>.\<close>

lemma target_bits_adjacent:
  "target_bits (map int (rev [p..<p + m])) r = r div 2 ^ p mod 2 ^ m"
proof (rule bit_eqI)
  fix j
  let ?P = "map int (rev [p..<p + m])"
  have l: "length ?P = m" by simp
  have "bit (target_bits ?P r) j \<longleftrightarrow> j < m \<and> bit r (p + j)"
  proof (cases "j < m")
    case True
    then have "nat (?P ! (m - 1 - j)) = p + j" by (simp add: rev_nth)
    then show ?thesis using True l by (simp only: bit_target_bits)
  next
    case False
    then show ?thesis by (simp add: bit_target_bits)
  qed
  also have "\<dots> \<longleftrightarrow> bit (take_bit m (drop_bit p r)) j"
    by (simp add: bit_take_bit_iff bit_drop_bit_eq add.commute)
  finally show "bit (target_bits ?P r) j \<longleftrightarrow> bit (r div 2 ^ p mod 2 ^ m) j"
    by (simp add: take_bit_eq_mod drop_bit_eq_div)
qed

lemma same_spectators_adjacent:
  assumes "r < 2 ^ n" "c < 2 ^ n" "p + m \<le> n"
  shows "same_spectators (map int (rev [p..<p + m])) n r c \<longleftrightarrow>
         r mod 2 ^ p = c mod 2 ^ p \<and> r div 2 ^ p div 2 ^ m = c div 2 ^ p div 2 ^ m"
proof -
  let ?P = "map int (rev [p..<p + m])"
  have inP: "int q \<in> set ?P \<longleftrightarrow> p \<le> q \<and> q < p + m" for q by auto
  have lo: "r mod 2 ^ p = c mod 2 ^ p \<longleftrightarrow> (\<forall>q<p. bit r q = bit c q)"
    unfolding take_bit_eq_mod[symmetric] by (auto simp: bit_eq_iff bit_take_bit_iff)
  have hi: "r div 2 ^ p div 2 ^ m = c div 2 ^ p div 2 ^ m \<longleftrightarrow> (\<forall>q\<ge>p + m. bit r q = bit c q)"
  proof -
    have "r div 2 ^ p div 2 ^ m = drop_bit (p + m) r" "c div 2 ^ p div 2 ^ m = drop_bit (p + m) c"
      by (simp_all add: drop_bit_eq_div power_add div_mult2_eq)
    moreover have "drop_bit (p + m) r = drop_bit (p + m) c \<longleftrightarrow> (\<forall>q\<ge>p + m. bit r q = bit c q)"
    proof
      assume e: "drop_bit (p + m) r = drop_bit (p + m) c"
      show "\<forall>q\<ge>p + m. bit r q = bit c q"
      proof (intro allI impI)
        fix q assume "p + m \<le> q"
        then obtain k where k: "q = p + m + k" using le_Suc_ex by blast
        have "bit (drop_bit (p + m) r) k = bit (drop_bit (p + m) c) k" using e by simp
        then show "bit r q = bit c q" unfolding k by (simp add: bit_drop_bit_eq)
      qed
    next
      assume a: "\<forall>q\<ge>p + m. bit r q = bit c q"
      show "drop_bit (p + m) r = drop_bit (p + m) c"
        by (rule bit_eqI) (simp add: bit_drop_bit_eq a)
    qed
    ultimately show ?thesis by simp
  qed
  have "same_spectators ?P n r c \<longleftrightarrow> (\<forall>q<n. (p \<le> q \<and> q < p + m) \<or> bit r q = bit c q)"
    unfolding same_spectators_def using inP by (simp add: Ball_def)
  also have "\<dots> \<longleftrightarrow> (\<forall>q<p. bit r q = bit c q) \<and> (\<forall>q\<ge>p + m. bit r q = bit c q)"
  proof
    assume a: "\<forall>q<n. (p \<le> q \<and> q < p + m) \<or> bit r q = bit c q"
    have "bit r q = bit c q" if "q < p" for q
    proof -
      have "q < n" using that assms(3) by simp
      then show ?thesis using a that by auto
    qed
    moreover have "bit r q = bit c q" if q: "p + m \<le> q" for q
    proof (cases "q < n")
      case True
      then show ?thesis using a q by auto
    next
      case False
      then show ?thesis using not_bit_ge[OF assms(1), of q] not_bit_ge[OF assms(2), of q] by simp
    qed
    ultimately show "(\<forall>q<p. bit r q = bit c q) \<and> (\<forall>q\<ge>p + m. bit r q = bit c q)" by simp
  next
    assume a: "(\<forall>q<p. bit r q = bit c q) \<and> (\<forall>q\<ge>p + m. bit r q = bit c q)"
    show "\<forall>q<n. (p \<le> q \<and> q < p + m) \<or> bit r q = bit c q"
    proof (intro allI impI)
      fix q assume "q < n"
      show "(p \<le> q \<and> q < p + m) \<or> bit r q = bit c q"
      proof (cases "q < p \<or> p + m \<le> q")
        case True
        then show ?thesis using a by auto
      next
        case False
        then show ?thesis by simp
      qed
    qed
  qed
  finally show ?thesis using lo hi by simp
qed


lemma dense_embed_kron:
  assumes U: "rect U" "shape U = (2 ^ m, 2 ^ m)" and n: "p + m \<le> n"
  shows "dense_embed U (map int (rev [p..<p + m])) n =
         np_kron (np_kron (eye (2 ^ (n - p - m))) U) (eye (2 ^ p))"
proof -
  let ?A = "2 ^ (n - p - m) :: nat" and ?M = "2 ^ m :: nat" and ?B = "2 ^ p :: nat"
  let ?P = "map int (rev [p..<p + m])"
  let ?K1 = "np_kron (eye ?A) U"
  let ?K = "np_kron ?K1 (eye ?B)"
  let ?f = "\<lambda>r c. if same_spectators ?P n r c then U ! target_bits ?P r ! target_bits ?P c else 0"
  have N: "(2::nat) ^ n = ?A * ?M * ?B"
  proof -
    have "n = (n - p - m) + m + p" using n by simp
    then have "(2::nat) ^ n = 2 ^ ((n - p - m) + m + p)" by simp
    then show ?thesis by (simp only: power_add)
  qed
  have lU: "length U = ?M" "snd (shape U) = ?M" using U(2) by (simp_all add: shape_def)
  have Une: "U \<noteq> []" using lU(1) by auto
  have eA12: "rect (eye ?A)" "shape (eye ?A) = (?A, ?A)"
    by (simp_all add: rect_eye shape_eye)
  have eA3: "length (eye ?A) = ?A" using eA12(2) by (simp add: shape_def)
  have eA4: "eye ?A \<noteq> []" using eA3 by (metis length_0_conv power_not_zero zero_neq_numeral)
  note eA = eA12 eA3 eA4
  have eB12: "rect (eye ?B)" "shape (eye ?B) = (?B, ?B)"
    by (simp_all add: rect_eye shape_eye)
  have eB3: "length (eye ?B) = ?B" using eB12(2) by (simp add: shape_def)
  have eB4: "eye ?B \<noteq> []" using eB3 by (metis length_0_conv power_not_zero zero_neq_numeral)
  note eB = eB12 eB3 eB4
  have r1: "rect ?K1" by (rule rect_np_kron[OF eA(1) U(1) eA(4) Une])
  have l1: "length ?K1 = ?A * ?M" using eA(3) lU(1) by (simp add: length_np_kron)
  have c1: "snd (shape ?K1) = ?A * ?M"
    using shape_np_kron[OF eA(1) U(1) eA(4) Une] eA(2) lU(2) by simp
  have ne1: "?K1 \<noteq> []" using l1 by auto
  have ent1: "?K1 ! i ! j = (if i div ?M = j div ?M then U ! (i mod ?M) ! (j mod ?M) else 0)"
    if "i < ?A * ?M" "j < ?A * ?M" for i j
  proof -
    have d: "i div ?M < ?A" "j div ?M < ?A" using that by (simp_all add: less_mult_imp_div_less)
    have "?K1 ! i ! j = eye ?A ! (i div ?M) ! (j div ?M) * U ! (i mod ?M) ! (j mod ?M)"
      using np_kron_entry[OF eA(1) U(1), of i j] that eA(2,3) lU by simp
    then show ?thesis using d eye_entry[OF d] by simp
  qed
  have lK: "length ?K = 2 ^ n" using l1 eB(3) N by (simp add: length_np_kron)
  have rK: "length (?K ! r) = 2 ^ n" if "r < 2 ^ n" for r
    using np_kron_row_length[OF r1 eB(1), of r] that l1 c1 eB(2,3) N by simp
  have entK: "?K ! r ! c = ?f r c" if r: "r < 2 ^ n" and c: "c < 2 ^ n" for r c
  proof -
    have rb: "r div ?B < ?A * ?M" "c div ?B < ?A * ?M"
      using r c N by (simp_all add: less_mult_imp_div_less)
    have mb: "r mod ?B < ?B" "c mod ?B < ?B" by simp_all
    have "?K ! r ! c = ?K1 ! (r div ?B) ! (c div ?B) * eye ?B ! (r mod ?B) ! (c mod ?B)"
      using np_kron_entry[OF r1 eB(1), of r c] r c l1 c1 eB(2,3) N by simp
    also have "\<dots> = (if r div ?B div ?M = c div ?B div ?M
                     then U ! (r div ?B mod ?M) ! (c div ?B mod ?M) else 0) *
                    (if r mod ?B = c mod ?B then 1 else 0)"
      using ent1[OF rb] eye_entry[OF mb] by simp
    also have "\<dots> = ?f r c"
      unfolding same_spectators_adjacent[OF r c n] target_bits_adjacent by simp
    finally show ?thesis .
  qed
  show ?thesis
  proof (rule mat_eqI[where N = "2 ^ n" and C = "2 ^ n"])
    show "length (dense_embed U ?P n) = 2 ^ n" by (simp add: dense_embed_def)
    show "length ?K = 2 ^ n" by (rule lK)
    show "\<And>i. i < 2 ^ n \<Longrightarrow> length (dense_embed U ?P n ! i) = 2 ^ n"
      by (simp add: dense_embed_def)
    show "\<And>i. i < 2 ^ n \<Longrightarrow> length (?K ! i) = 2 ^ n" by (rule rK)
    show "\<And>i j. i < 2 ^ n \<Longrightarrow> j < 2 ^ n \<Longrightarrow> dense_embed U ?P n ! i ! j = ?K ! i ! j"
      using entK by (simp add: dense_embed_def)
  qed
qed

section \<open>Facts about the store\<close>

lemma pos_fresh [simp]: "pos (fresh_array st n) k = k"
  by (simp add: pos_def fresh_array_def)

lemma buf_fresh [simp]: "buf (fresh_array st n) = length st"
  by (simp add: fresh_array_def)

lemma count_fresh [simp]: "alen (fresh_array st n) = n"
  by (simp add: fresh_array_def)

lemma read_append: "buf a < length st \<Longrightarrow> read (st @ [v]) a = read st a"
  by (simp add: read_def nth_append)

lemma read_fresh: "read (st @ [v]) (fresh_array st (length v)) = v"
  by (simp add: read_def map_nth)

lemma write_at_fresh:
  "write_at (st @ [new]) (fresh_array st n) i v = st @ [new[i := v]]"
  by (simp add: write_at_def list_update_append)

lemma fold_write_fresh:
  "fold (\<lambda>(i, v) s. write_at s (fresh_array st n) i v) zs (st @ [new]) =
   st @ [fold (\<lambda>(i, v) ys. ys[i := v]) zs new]"
proof (induction zs arbitrary: new)
  case Nil
  show ?case by simp
next
  case (Cons z zs)
  obtain i v where z: "z = (i, v)" by (cases z)
  show ?case by (simp add: z write_at_fresh Cons.IH)
qed

lemma put_s_fresh:
  assumes "length new = n"
  shows "put_s (st @ [new]) (fresh_array st n) idx vals =
         (case np_put new idx vals of Inl e \<Rightarrow> Inl e | Inr new' \<Rightarrow> Inr (st @ [new']))"
proof (cases "np_broadcast (length idx) vals")
  case (Inl e)
  then show ?thesis using assms by (simp add: put_s_def np_put_def)
next
  case (Inr vs)
  then show ?thesis using assms by (simp add: put_s_def np_put_def fold_write_fresh)
qed

lemma length_fold_update: "length (fold (\<lambda>(i, v) ys. ys[i := v]) zs xs) = length xs"
  by (induction zs arbitrary: xs) (simp_all add: case_prod_beta)

lemma np_put_length: "np_put xs idx vals = Inr ys \<Longrightarrow> length ys = length xs"
  by (cases "np_broadcast (length idx) vals")
     (auto simp: np_put_def length_fold_update split: if_splits)

lemma take_s_append:
  assumes "buf a < length st"
  shows "take_s (st @ [new]) a idx = np_take (read st a) idx"
proof (cases "\<forall>i\<in>set idx. i < alen a")
  case True
  then have "map (\<lambda>i. (st @ [new]) ! buf a ! pos a i) idx = map ((!) (read st a)) idx"
    using assms by (intro map_cong refl) (simp add: read_def nth_append)
  then show ?thesis using True by (simp add: take_s_def np_take_def read_def)
next
  case False
  have l: "length (read st a) = alen a" by (simp add: read_def)
  show ?thesis unfolding take_s_def np_take_def l by (simp only: False if_False)
qed

lemma apply_block_s_fresh:
  assumes "buf a < length st" "length new = n"
  shows "apply_block_s self a (fresh_array st n) i (st @ [new]) =
         (case apply_block self (read st a) i new of
            Inl e \<Rightarrow> Inl e | Inr new' \<Rightarrow> Inr (st @ [new']))"
proof (cases "np_take (read st a) (slice (bases self) i (i + msize self))")
  case (Inl e)
  then show ?thesis
    by (simp add: apply_block_s_def apply_block_def take_s_append[OF assms(1)])
next
  case g: (Inr gathered)
  show ?thesis
  proof (cases "np_dot (lmatrix self) gathered")
    case (Inl e)
    then show ?thesis using g
      by (simp add: apply_block_s_def apply_block_def take_s_append[OF assms(1)])
  next
    case (Inr prod)
    then show ?thesis using g
      by (simp add: apply_block_s_def apply_block_def take_s_append[OF assms(1)]
          put_s_fresh[OF assms(2)])
  qed
qed

lemma apply_block_length: "apply_block self qs i new = Inr new' \<Longrightarrow> length new' = length new"
  unfolding apply_block_def and_then_def
  by (auto split: sum.splits dest: np_put_length)

lemma apply_loop_s_fresh:
  assumes "buf a < length st"
  shows "length new = n \<Longrightarrow>
         for_loop is (apply_block_s self a (fresh_array st n)) (st @ [new]) =
         (case for_loop is (apply_block self (read st a)) new of
            Inl e \<Rightarrow> Inl e | Inr new' \<Rightarrow> Inr (st @ [new']))"
proof (induction "is" arbitrary: new)
  case Nil
  show ?case by simp
next
  case (Cons i "is")
  show ?case
  proof (cases "apply_block self (read st a) i new")
    case (Inl e)
    then show ?thesis by (simp add: apply_block_s_fresh[OF assms Cons.prems])
  next
    case (Inr new')
    then have "length new' = n" using apply_block_length Cons.prems by metis
    from Cons.IH[OF this] show ?thesis
      using Inr by (simp add: apply_block_s_fresh[OF assms Cons.prems])
  qed
qed

lemma LazyGate_apply_s_eq:
  assumes "buf (state_s r) < length st"
  shows "LazyGate_apply_s self r st =
         (case LazyGate_apply self (reg_value st r) of
            Inl e \<Rightarrow> Inl e
          | Inr R \<Rightarrow> Inr (\<lparr>nbits_s = nbits R,
                            state_s = fresh_array st (alen (state_s r))\<rparr>, st @ [state R]))"
proof -
  have l: "length (read st (state_s r)) = alen (state_s r)" by (simp add: read_def)
  have lr: "length (replicate (alen (state_s r)) (0::complex)) = alen (state_s r)" by simp
  show ?thesis
    unfolding LazyGate_apply_s_def LazyGate_apply_def np_alloc_def Let_def reg_value_def
    using apply_loop_s_fresh[OF assms lr, of "py_range 0 (qsize self) (msize self)" self]
    by (simp add: l QReg_def and_then_def split: sum.splits)
qed

lemma MGate_apply_s_eq:
  "MGate_apply_s self r st =
     (case MGate_apply self (reg_value st r) of
        Inl e \<Rightarrow> Inl e
      | Inr R \<Rightarrow> Inr (\<lparr>nbits_s = nbits R,
                        state_s = fresh_array st (length (state R))\<rparr>, st @ [state R]))"
  unfolding MGate_apply_s_def MGate_apply_def np_alloc_def reg_value_def
  by (simp add: QReg_def and_then_def split: sum.splits)

lemma LazyCNOT_dot_s_eq:
  "LazyCNOT_dot_s self a st =
     (case LazyCNOT_dot self (read st a) of
        Inl e \<Rightarrow> Inl e
      | Inr v \<Rightarrow> Inr (fresh_array st (alen a), st @ [v]))"
proof -
  have l: "length (read st a) = alen a" by (simp add: read_def)
  show ?thesis
    unfolding LazyCNOT_dot_s_def LazyCNOT_dot_def np_alloc_def Let_def
    by (simp add: l write_at_fresh)
qed

lemma for_loop_preserves:
  assumes "\<And>i a a'. body i a = Inr a' \<Longrightarrow> I a \<Longrightarrow> I a'"
  shows "for_loop is body a = Inr a' \<Longrightarrow> I a \<Longrightarrow> I a'"
proof (induction "is" arbitrary: a)
  case Nil
  then show ?case by simp
next
  case (Cons i "is")
  show ?case
  proof (cases "body i a")
    case (Inl e)
    then show ?thesis using Cons.prems(1) by simp
  next
    case (Inr b)
    then have "for_loop is body b = Inr a'" using Cons.prems(1) by simp
    moreover have "I b" using assms[OF Inr Cons.prems(2)] .
    ultimately show ?thesis by (rule Cons.IH)
  qed
qed

lemma LazyGate_apply_shape:
  assumes "LazyGate_apply self q = Inr R"
  shows "length (state R) = length (state q)" and "nbits R = nbits q"
proof -
  from assms obtain new where new:
    "for_loop (py_range 0 (qsize self) (msize self)) (apply_block self (state q))
       (replicate (length (state q)) 0) = Inr new" "R = QReg (nbits q) new"
    unfolding LazyGate_apply_def and_then_def by (auto split: sum.splits)
  have "length new = length (state q)"
  proof (rule for_loop_preserves[where I = "\<lambda>v. length v = length (state q)", OF _ new(1)])
    fix i a a' assume "apply_block self (state q) i a = Inr a'" "length a = length (state q)"
    then show "length a' = length (state q)" using apply_block_length by metis
  qed simp
  then show "length (state R) = length (state q)" and "nbits R = nbits q"
    using new(2) by (simp_all add: QReg_def)
qed

lemma MGate_apply_nbits: "MGate_apply self q = Inr R \<Longrightarrow> nbits R = nbits q"
  unfolding MGate_apply_def by (auto simp: QReg_def split: sum.splits)

lemma qreg_eq: "QReg (nbits R) (state R) = R"
  by (simp add: QReg_def)

lemma rev_upt_map: "rev [0..<n] = map (\<lambda>k. n - Suc k) [0..<n]"
  by (rule nth_equalityI) (simp_all add: rev_nth)

lemma pos_reversed:
  assumes "valid st a" "k < alen a"
  shows "pos (reversed a) k = pos a (alen a - Suc k)"
proof -
  have n: "alen a \<noteq> 0" "alen a - 1 < alen a" using assms(2) by simp_all
  have "alen a - 1 \<in> set [0..<alen a]" using n(2) by simp
  then have "0 \<le> int (offset a) + int (alen a - 1) * stride a"
    using assms(1) unfolding valid_def by blast
  then have p: "int (pos a (alen a - 1)) = int (offset a) + int (alen a - 1) * stride a"
    by (simp add: pos_def)
  have e: "int (alen a - Suc k) = int (alen a - 1) - int k" using assms(2) by simp
  have "int (offset a) + int (alen a - 1) * stride a + int k * (- stride a) =
        int (offset a) + (int (alen a - 1) - int k) * stride a"
    by (simp add: left_diff_distrib)
  then have "int (pos a (alen a - 1)) + int k * (- stride a) =
        int (offset a) + int (alen a - Suc k) * stride a"
    by (simp only: p e)
  then show ?thesis using n(1) by (simp add: pos_def reversed_def)
qed

lemma read_reversed:
  assumes "valid st a"
  shows "read st (reversed a) = rev (read st a)"
proof -
  have "read st (reversed a) = map (\<lambda>k. st ! buf a ! pos (reversed a) k) [0..<alen a]"
    by (simp add: read_def reversed_def)
  also have "\<dots> = map (\<lambda>k. st ! buf a ! pos a (alen a - Suc k)) [0..<alen a]"
    using pos_reversed[OF assms] by (intro map_cong refl) simp
  also have "\<dots> = map (\<lambda>k. st ! buf a ! pos a k) (map (\<lambda>k. alen a - Suc k) [0..<alen a])"
    by (simp add: comp_def)
  also have "\<dots> = rev (read st a)"
    by (simp only: read_def rev_map rev_upt_map)
  finally show ?thesis .
qed

section \<open>Parallel composition\<close>

text \<open>
  Claim C7. For Dense gates \<open>A\<close> of \<open>k1\<close> qubits and \<open>B\<close> of \<open>k2\<close> qubits, \<^verbatim>\<open>A * B\<close>
  returns a Dense gate (the assertions of the constructor pass) whose declared qubit count
  is \<open>k1 + k2\<close> and whose matrix is the Kronecker product of the matrix of \<open>A\<close> and the
  matrix of \<open>B\<close>, in that order: it is square of dimension \<open>2 ^ (k1 + k2)\<close> and its entry
  \<open>(i, j)\<close> is the entry \<open>(i div 2 ^ k2, j div 2 ^ k2)\<close> of \<open>A\<close> times the entry
  \<open>(i mod 2 ^ k2, j mod 2 ^ k2)\<close> of \<open>B\<close>.
\<close>

theorem MGate_mul_kron:
  assumes "rect MA" "rect MB" "MGate MA k1 = Inr A" "MGate MB k2 = Inr B"
  shows "\<exists>C. MGate_mul A B = Inr C \<and> qreg_size C = k1 + k2 \<and>
              matrix C = np_kron MA MB \<and> rect (matrix C) \<and>
              shape (matrix C) = (2 ^ (k1 + k2), 2 ^ (k1 + k2)) \<and>
              (\<forall>i<2 ^ (k1 + k2). \<forall>j<2 ^ (k1 + k2).
                 matrix C ! i ! j =
                   MA ! (i div 2 ^ k2) ! (j div 2 ^ k2) * MB ! (i mod 2 ^ k2) ! (j mod 2 ^ k2))"
  using assms by (rule MGate_mul_wf)

theorem MGate_mul_kron_witness:
  "rect [[0, 1], [1, 0]] \<and> MGate [[0, 1], [1, 0]] 1 = Inr NOT_gate \<and>
   MGate_mul NOT_gate NOT_gate =
     Inr \<lparr>qreg_size = 2, matrix = [[0,0,0,1],[0,0,1,0],[0,1,0,0],[1,0,0,0]]\<rparr>"
proof -
  from MGate_mul_kron[OF rect_NOT rect_NOT MGate_NOT MGate_NOT]
  obtain C where C: "MGate_mul NOT_gate NOT_gate = Inr C" "qreg_size C = 1 + 1"
    "matrix C = np_kron [[0, 1], [1, 0]] [[0, 1], [1, 0]]"
    by blast
  have "matrix C = [[0,0,0,1],[0,0,1,0],[0,1,0,0],[1,0,0,0]]"
    using C(3) by (simp add: np_kron_def)
  then have "C = \<lparr>qreg_size = 2, matrix = [[0,0,0,1],[0,0,1,0],[0,1,0,0],[1,0,0,0]]\<rparr>"
    using C(2) by (cases C) simp
  then show ?thesis using C(1) rect_NOT MGate_NOT by simp
qed

section \<open>Sequential composition\<close>

text \<open>
  What \<^verbatim>\<open>MGate.__add__\<close> computes: for Dense gates \<open>A\<close> and \<open>B\<close> of the same qubit count
  \<open>k\<close>, \<^verbatim>\<open>A + B\<close> holds the product of the matrix of \<open>A\<close> and the matrix of \<open>B\<close>, in that
  order, so that applying it to a register is applying \<open>B\<close> first and \<open>A\<close> to the result.
\<close>

lemma MGate_add_value:
  assumes "rect MA" "rect MB" "MGate MA k = Inr A" "MGate MB k = Inr B"
  shows "\<exists>C. MGate_add A B = Inr C \<and> qreg_size C = k \<and>
              np_matmul MA MB = Inr (matrix C) \<and>
              (\<forall>i<2 ^ k. \<forall>j<2 ^ k. matrix C ! i ! j = (\<Sum>l<2 ^ k. MA ! i ! l * MB ! l ! j)) \<and>
              (\<forall>R. MGate_apply C R =
                     (case MGate_apply B R of Inl e \<Rightarrow> Inl e | Inr R' \<Rightarrow> MGate_apply A R'))"
proof -
  from assms(3) have A: "length MA = 2 ^ k" "snd (shape MA) = 2 ^ k"
    "A = \<lparr>qreg_size = k, matrix = MA\<rparr>" by (simp_all add: MGate_Inr)
  from assms(4) have B: "length MB = 2 ^ k" "snd (shape MB) = 2 ^ k"
    "B = \<lparr>qreg_size = k, matrix = MB\<rparr>" by (simp_all add: MGate_Inr)
  define P where "P = map (\<lambda>r. map (\<lambda>j. vdot r (column MB j)) [0..<2 ^ k]) MA"
  have mm: "np_matmul MA MB = Inr P"
    by (simp add: np_matmul_def A B P_def)
  have lenP: "length P = 2 ^ k" by (simp add: P_def A)
  have "P \<noteq> []" using lenP by auto
  then have colsP: "snd (shape P) = 2 ^ k"
    by (cases MA) (auto simp: P_def shape_def)
  have add: "MGate_add A B = Inr \<lparr>qreg_size = k, matrix = P\<rparr>"
    by (simp add: MGate_add_def A(3) B(3) mm MGate_Inr lenP colsP)
  have ent: "P ! i ! j = (\<Sum>l<2 ^ k. MA ! i ! l * MB ! l ! j)" if "i < 2 ^ k" "j < 2 ^ k" for i j
    using np_matmul_entry[OF assms(1,2), of i j] that A B mm by simp
  have app: "MGate_apply \<lparr>qreg_size = k, matrix = P\<rparr> R =
               (case MGate_apply B R of Inl e \<Rightarrow> Inl e | Inr R' \<Rightarrow> MGate_apply A R')" for R
  proof (cases "length (state R) = 2 ^ k")
    case False
    then show ?thesis by (simp add: MGate_apply_def np_dot_def colsP A B)
  next
    case True
    have rows: "\<forall>b\<in>set MB. length b = length (state R)"
      using assms(2) B(2) True by (simp add: rect_def)
    have "vdot (map (\<lambda>j. vdot r (column MB j)) [0..<2 ^ k]) (state R)
            = vdot r (map (\<lambda>b. vdot b (state R)) MB)" if "r \<in> set MA" for r
    proof -
      have "length r = length MB" using assms(1) that A(2) B(1) by (simp add: rect_def)
      from vdot_matmul_row[OF this rows] show ?thesis by (simp add: True)
    qed
    then have "map (\<lambda>r. vdot r (state R)) P = map (\<lambda>r. vdot r (map (\<lambda>b. vdot b (state R)) MB)) MA"
      by (simp add: P_def)
    then show ?thesis
      using True by (simp add: MGate_apply_def np_dot_def colsP A B QReg_def)
  qed
  show ?thesis using add mm ent app by simp
qed

text \<open>
  Claim C2. For Dense gates \<open>A\<close> and \<open>B\<close> of the same qubit count, \<^verbatim>\<open>A + B\<close> is to be
  \<open>A\<close> then \<open>B\<close>: its matrix the product of the matrix of \<open>B\<close> and the matrix of \<open>A\<close>, and
  applying it to a register the same as applying \<open>A\<close> and then \<open>B\<close>. That is the order of
  \<^verbatim>\<open>Gate.__add__\<close>, which builds the sequence \<^verbatim>\<open>[self, other]\<close>, and of the module's
  documentation, which draws \<open>A\<close> before \<open>B\<close> in the flow. \<^verbatim>\<open>MGate.__add__\<close> passes
  \<^verbatim>\<open>self.matrix\<close> and \<^verbatim>\<open>other.matrix\<close> to \<^verbatim>\<open>np.matmul\<close> in that order and so does the
  opposite. For the predefined gates \<^verbatim>\<open>CNOT\<close> and \<^verbatim>\<open>CNOT_r\<close> and the basis state \<open>|01>\<close>:
  \<^verbatim>\<open>CNOT + CNOT_r\<close> holds the product \<^verbatim>\<open>CNOT\<close> times \<^verbatim>\<open>CNOT_r\<close>, not \<^verbatim>\<open>CNOT_r\<close> times
  \<^verbatim>\<open>CNOT\<close>, and sends \<open>|01>\<close> to \<open>|10>\<close>, while \<^verbatim>\<open>CNOT\<close> followed by \<^verbatim>\<open>CNOT_r\<close> sends it
  to \<open>|11>\<close>.
\<close>

theorem MGate_add_operand_order:
  "MGate_add CNOT CNOT_r =
     Inr \<lparr>qreg_size = 2, matrix = [[1,0,0,0],[0,0,0,1],[0,1,0,0],[0,0,1,0]]\<rparr> \<and>
   np_matmul (matrix CNOT_r) (matrix CNOT) = Inr [[1,0,0,0],[0,0,1,0],[0,0,0,1],[0,1,0,0]] \<and>
   [[1,0,0,0],[0,0,0,1],[0,1,0,0],[0,0,1,0]] \<noteq> [[1,0,0,0],[0,0,1,0],[0,0,0,1],[0,1,0,0::complex]] \<and>
   MGate_apply \<lparr>qreg_size = 2, matrix = [[1,0,0,0],[0,0,0,1],[0,1,0,0],[0,0,1,0]]\<rparr>
       (QReg 2 [0, 1, 0, 0]) = Inr (QReg 2 [0, 0, 1, 0]) \<and>
   (case MGate_apply CNOT (QReg 2 [0, 1, 0, 0]) of Inl e \<Rightarrow> Inl e | Inr R' \<Rightarrow> MGate_apply CNOT_r R')
      = Inr (QReg 2 [0, 0, 0, 1]) \<and>
   QReg 2 [0, 0, 1, 0] \<noteq> QReg 2 [0, 0, 0, 1]"
  by (simp add: MGate_add_def MGate_def MGate_apply_def CNOT_def CNOT_r_def np_matmul_def
      np_dot_def shape_def vdot_def column_def QReg_def upt_rec)

section \<open>Powers\<close>

text \<open>
  Claim C3, as the code has it. For a Dense gate \<open>A\<close> of \<open>k\<close> qubits and an integer
  \<open>i \<ge> 1\<close> (the interpreter allowing at least \<open>i\<close> nested calls), \<^verbatim>\<open>A ** i\<close> returns a
  Dense gate of \<open>i * k\<close> qubits whose matrix is the Kronecker product of \<open>i\<close> copies of the
  matrix of \<open>A\<close>: \<^verbatim>\<open>A ** 1\<close> is \<open>A\<close> itself, and for \<open>i > 1\<close> it is the parallel composition
  \<^verbatim>\<open>A * (A ** (i - 1))\<close>.
\<close>

theorem MGate_pow_kron_power:
  assumes "rect M" "MGate M k = Inr A" "1 \<le> i" "nat i \<le> d"
  shows "\<exists>g. MGate_pow d A i = Inr g \<and> qreg_size g = nat i * k \<and>
             matrix g = kron_power M (nat i) \<and>
             (i = 1 \<longrightarrow> g = A) \<and>
             (1 < i \<longrightarrow> (\<exists>r. MGate_pow (d - 1) A (i - 1) = Inr r \<and> MGate_mul A r = Inr g))"
  using assms(3,4)
proof (induction d arbitrary: i)
  case 0
  then show ?case by simp
next
  case (Suc d)
  from assms(2) have A: "length M = 2 ^ k" "snd (shape M) = 2 ^ k"
    "A = \<lparr>qreg_size = k, matrix = M\<rparr>" by (simp_all add: MGate_Inr)
  show ?case
  proof (cases "i = 1")
    case True
    then show ?thesis by (simp add: A)
  next
    case False
    then have i: "1 \<le> i - 1" "nat (i - 1) \<le> d" using Suc.prems by auto
    from Suc.IH[OF i] obtain r where r: "MGate_pow d A (i - 1) = Inr r"
      "qreg_size r = nat (i - 1) * k" "matrix r = kron_power M (nat (i - 1))" by blast
    obtain n where n: "nat (i - 1) = Suc n" using i(1) by (cases "nat (i - 1)") auto
    then have ni: "nat i = Suc (Suc n)" using i(1) by linarith
    have sh: "rect (matrix r)" "length (matrix r) = 2 ^ (Suc n * k)"
      "snd (shape (matrix r)) = 2 ^ (Suc n * k)"
      using kron_power_shape[OF assms(1) A(1,2), of n] r(3) n by simp_all
    have mr: "MGate (matrix r) (qreg_size r) = Inr r"
      using sh r(2) n by (simp add: MGate_Inr)
    from MGate_mul_wf[OF assms(1) sh(1) assms(2) mr]
    obtain C where C: "MGate_mul A r = Inr C" "qreg_size C = k + qreg_size r"
      "matrix C = np_kron M (matrix r)" by blast
    have "MGate_pow (Suc d) A i = Inr C" using False r(1) C(1) by simp
    moreover have "qreg_size C = nat i * k" using C(2) r(2) n ni by simp
    moreover have "matrix C = kron_power M (nat i)" using C(3) r(3) n ni by simp
    ultimately show ?thesis using False r(1) C(1) by simp
  qed
qed

theorem MGate_pow_kron_power_witness:
  "rect [[0, 1], [1, 0]] \<and> MGate [[0, 1], [1, 0]] 1 = Inr NOT_gate \<and>
   MGate_pow 2 NOT_gate 2 =
     Inr \<lparr>qreg_size = 2, matrix = [[0,0,0,1],[0,0,1,0],[0,1,0,0],[1,0,0,0]]\<rparr> \<and>
   MGate_pow 1 NOT_gate 1 = Inr NOT_gate"
proof -
  have h: "(1::int) \<le> 2" "nat 2 \<le> (2::nat)" by simp_all
  from MGate_pow_kron_power[OF rect_NOT MGate_NOT h]
  obtain g where g: "MGate_pow 2 NOT_gate 2 = Inr g" "qreg_size g = nat 2 * 1"
    "matrix g = kron_power [[0, 1], [1, 0]] (nat 2)" by blast
  have "matrix g = [[0,0,0,1],[0,0,1,0],[0,1,0,0],[1,0,0,0]]"
    using g(3) by (simp add: eval_nat_numeral np_kron_def)
  then have geq: "g = \<lparr>qreg_size = 2, matrix = [[0,0,0,1],[0,0,1,0],[0,1,0,0],[1,0,0,0]]\<rparr>"
    using g(2) by (cases g) simp
  have h1: "(1::int) \<le> 1" "nat 1 \<le> (1::nat)" by simp_all
  from MGate_pow_kron_power[OF rect_NOT MGate_NOT h1]
  have "MGate_pow 1 NOT_gate 1 = Inr NOT_gate" by auto
  then show ?thesis using g(1) geq rect_NOT MGate_NOT by simp
qed

text \<open>
  The claim C3 as stated (repetition by sequential composition, \<^verbatim>\<open>(A ** 3).apply(R)\<close> equal
  to three applications of \<open>A\<close>) fails for \<^verbatim>\<open>NOT\<close>: \<^verbatim>\<open>NOT ** 2\<close> is the two-qubit gate
  \<^verbatim>\<open>NOT * NOT\<close> and not the one-qubit gate \<^verbatim>\<open>NOT + NOT\<close>, and \<^verbatim>\<open>NOT ** 3\<close> is a
  three-qubit gate whose product with the state of the one-qubit register \<open>|0>\<close> raises,
  while three applications of \<^verbatim>\<open>NOT\<close> give \<open>|1>\<close>.
\<close>

theorem MGate_pow_sequential_counterexample:
  "MGate_pow 2 NOT_gate 2 =
     Inr \<lparr>qreg_size = 2, matrix = [[0,0,0,1],[0,0,1,0],[0,1,0,0],[1,0,0,0]]\<rparr> \<and>
   MGate_add NOT_gate NOT_gate = Inr \<lparr>qreg_size = 1, matrix = [[1, 0], [0, 1]]\<rparr> \<and>
   (case MGate_pow 3 NOT_gate 3 of Inl e \<Rightarrow> Inl e | Inr g \<Rightarrow> MGate_apply g (QReg 1 [1, 0]))
      = Inl ValueError \<and>
   (case MGate_apply NOT_gate (QReg 1 [1, 0]) of Inl e \<Rightarrow> Inl e
    | Inr R1 \<Rightarrow> (case MGate_apply NOT_gate R1 of Inl e \<Rightarrow> Inl e
                 | Inr R2 \<Rightarrow> MGate_apply NOT_gate R2))
      = Inr (QReg 1 [0, 1])"
  by (simp add: eval_nat_numeral MGate_mul_def MGate_add_def MGate_def MGate_apply_def
      NOT_gate_def np_kron_def np_matmul_def np_dot_def shape_def vdot_def column_def
      QReg_def upt_rec)

section \<open>Applying a Dense gate\<close>

text \<open>
  Claim C6. For a Dense gate of declared qubit count \<open>k\<close> and a register \<open>R\<close> (whose state
  has length \<open>2 ^ nbits R\<close>): when the qubit count of \<open>R\<close> differs from \<open>k\<close>, \<^verbatim>\<open>apply\<close> fails
  with the size error of the matrix-vector product; when it equals \<open>k\<close>, \<^verbatim>\<open>apply\<close> returns a
  register of \<open>k\<close> qubits whose state is the matrix-vector product of the matrix and the
  state of \<open>R\<close>. The register is a value that \<^verbatim>\<open>apply\<close> only reads, so it is the same
  after a failure.
\<close>

theorem MGate_apply_size:
  assumes "rect M" "MGate M k = Inr g" "length (state R) = 2 ^ nbits R"
  shows "(nbits R \<noteq> k \<longrightarrow> MGate_apply g R = Inl ValueError) \<and>
         (nbits R = k \<longrightarrow>
            (\<exists>R'. MGate_apply g R = Inr R' \<and> nbits R' = k \<and> length (state R') = 2 ^ k \<and>
                  (\<forall>i<2 ^ k. state R' ! i = (\<Sum>j<2 ^ k. M ! i ! j * state R ! j))))"
proof -
  from assms(2) have g: "length M = 2 ^ k" "snd (shape M) = 2 ^ k"
    "g = \<lparr>qreg_size = k, matrix = M\<rparr>" by (simp_all add: MGate_Inr)
  have ne: "nbits R \<noteq> k \<Longrightarrow> MGate_apply g R = Inl ValueError"
    using assms(3) by (simp add: MGate_apply_def np_dot_def g)
  have eq: "\<exists>R'. MGate_apply g R = Inr R' \<and> nbits R' = k \<and> length (state R') = 2 ^ k \<and>
                  (\<forall>i<2 ^ k. state R' ! i = (\<Sum>j<2 ^ k. M ! i ! j * state R ! j))"
    if k: "nbits R = k"
  proof -
    have len: "length (state R) = 2 ^ k" using assms(3) k by simp
    have ap: "MGate_apply g R = Inr (QReg k (map (\<lambda>r. vdot r (state R)) M))"
      using len k by (simp add: MGate_apply_def np_dot_def g)
    have "vdot (M ! i) (state R) = (\<Sum>j<2 ^ k. M ! i ! j * state R ! j)" if "i < 2 ^ k" for i
      using rect_nth[OF assms(1), of i] that g len by (simp add: vdot_sum)
    then show ?thesis using ap g(1) by (simp add: QReg_def)
  qed
  show ?thesis using ne eq by blast
qed

theorem MGate_apply_size_witness:
  "MGate_apply NOT_gate (QReg 2 [1, 0, 0, 0]) = Inl ValueError \<and>
   MGate_apply NOT_gate (QReg 1 [1, 0]) = Inr (QReg 1 [0, 1])"
proof -
  have l2: "length (state (QReg 2 [1, 0, 0, 0])) = 2 ^ nbits (QReg 2 [1, 0, 0, 0])"
    by (simp add: QReg_def)
  have l1: "length (state (QReg 1 [1, 0])) = 2 ^ nbits (QReg 1 [1, 0])"
    by (simp add: QReg_def)
  have a: "MGate_apply NOT_gate (QReg 2 [1, 0, 0, 0]) = Inl ValueError"
    using MGate_apply_size[OF rect_NOT MGate_NOT l2] by (simp add: QReg_def)
  from MGate_apply_size[OF rect_NOT MGate_NOT l1]
  obtain R' where R': "MGate_apply NOT_gate (QReg 1 [1, 0]) = Inr R'" "nbits R' = 1"
    by (auto simp: QReg_def)
  have "MGate_apply NOT_gate (QReg 1 [1, 0]) = Inr (QReg 1 [0, 1])"
    by (simp add: MGate_apply_def NOT_gate_def np_dot_def shape_def vdot_def QReg_def)
  then show ?thesis using a by simp
qed

section \<open>The closed-form appliers\<close>

text \<open>
  Claim C9. For every state vector, applying \<^verbatim>\<open>LazyNOT.dot\<close> twice returns the original
  state vector exactly.
\<close>

theorem LazyNOT_dot_twice: "LazyNOT_dot self (LazyNOT_dot self qreg_state) = qreg_state"
  by (simp add: LazyNOT_dot_def)

section \<open>The oracle gate\<close>

text \<open>
  Claim C4. For a list \<^verbatim>\<open>fdef\<close> of accepted bit-strings of equal length \<open>L\<close> (the input size
  left out or given as \<open>L\<close>; it must be given and positive when the list is empty), with
  the basis labels enumerated in index order, the oracle builder returns a Dense gate over
  \<open>L + 1\<close> qubits that maps each basis state \<open>x\<cdot>b\<close> (\<open>x\<close> a label of \<open>L\<close> digits, \<open>b\<close> the last
  digit) to \<open>x\<cdot>(1 - b)\<close> when \<open>x\<close> is accepted and to itself otherwise. For
  \<^verbatim>\<open>fdef = ["00", "10"]\<close> it maps \<open>|000>\<close> to \<open>|001>\<close>, \<open>|001>\<close> to \<open>|000>\<close>, and \<open>|010>\<close> and
  \<open>|011>\<close> to themselves.
\<close>

theorem construct_unitary_F_oracle:
  assumes lens: "\<forall>s\<in>set fdef. length s = L"
      and arg: "fdef \<noteq> [] \<and> (in_size = None \<or> in_size = Some L) \<or> in_size = Some L \<and> 0 < L"
  shows "\<exists>g. construct_unitary_F fdef in_size = Inr g \<and> qreg_size g = L + 1 \<and>
             rect (matrix g) \<and> shape (matrix g) = (2 ^ (L + 1), 2 ^ (L + 1)) \<and>
             (\<forall>x\<in>set (QReg_bases L). \<forall>b\<in>{CHR ''0'', CHR ''1''}.
                MGate_apply g (ket (x @ [b])) =
                  Inr (ket (x @ [if x \<in> set fdef then flip_digit b else b])))"
proof -
  let ?M = "mat_of (\<lambda>r c. if r = F_target fdef L c then 1 else 0) (2 ^ Suc L)"
  let ?g = "\<lparr>qreg_size = Suc L, matrix = ?M\<rparr>"
  have v: "construct_unitary_F fdef in_size = Inr ?g"
    using lens arg by (rule construct_unitary_F_value)
  have r: "rect ?M" by (rule rect_mat_of) simp
  have sh: "shape ?M = (2 ^ (L + 1), 2 ^ (L + 1))" using shape_mat_of[of "2 ^ Suc L"] by simp
  have act: "MGate_apply ?g (ket (x @ [b])) =
               Inr (ket (x @ [if x \<in> set fdef then flip_digit b else b]))"
    if x: "x \<in> set (QReg_bases L)" and b: "b \<in> {CHR ''0'', CHR ''1''}" for x b
  proof -
    from x obtain i where i: "i < 2 ^ L" "x = label L i" by (auto simp: QReg_bases_def)
    have c0: "2 * i < 2 ^ Suc L" and c1: "Suc (2 * i) < 2 ^ Suc L" using i(1) by simp_all
    have te: "F_target fdef L (2 * i) = (if x \<in> set fdef then Suc (2 * i) else 2 * i)"
      using F_target_even[of fdef L i] i(2) by simp
    have todd: "F_target fdef L (Suc (2 * i)) = (if x \<in> set fdef then 2 * i else Suc (2 * i))"
      using F_target_odd[of fdef L i] i(2) by simp
    from b consider "b = CHR ''0''" | "b = CHR ''1''" by auto
    then show ?thesis
    proof cases
      case 1
      show ?thesis
        using MGate_apply_oracle_unit[OF c0, of fdef] ket_label0[OF i(1)] ket_label1[OF i(1)]
        by (simp add: 1 i(2)[symmetric] te flip_digit_def)
    next
      case 2
      show ?thesis
        using MGate_apply_oracle_unit[OF c1, of fdef] ket_label0[OF i(1)] ket_label1[OF i(1)]
        by (simp add: 2 i(2)[symmetric] todd flip_digit_def)
    qed
  qed
  show ?thesis using v r sh act by (intro exI[of _ ?g]) simp
qed

theorem construct_unitary_F_oracle_witness:
  "and_then (construct_unitary_F [''00'', ''10''] None) (\<lambda>g. MGate_apply g (ket ''000'')) =
     Inr (ket ''001'') \<and>
   and_then (construct_unitary_F [''00'', ''10''] None) (\<lambda>g. MGate_apply g (ket ''001'')) =
     Inr (ket ''000'') \<and>
   and_then (construct_unitary_F [''00'', ''10''] None) (\<lambda>g. MGate_apply g (ket ''010'')) =
     Inr (ket ''010'') \<and>
   and_then (construct_unitary_F [''00'', ''10''] None) (\<lambda>g. MGate_apply g (ket ''011'')) =
     Inr (ket ''011'')"
proof -
  have lens: "\<forall>s\<in>set [''00'', ''10'']. length s = 2" by simp
  have arg: "[''00'', ''10''] \<noteq> [] \<and> (None = None \<or> None = Some (2::nat)) \<or>
             None = Some (2::nat) \<and> 0 < (2::nat)" by simp
  from construct_unitary_F_oracle[OF lens arg]
  obtain g where g: "construct_unitary_F [''00'', ''10''] None = Inr g"
    and act: "\<And>x b. x \<in> set (QReg_bases 2) \<Longrightarrow> b \<in> {CHR ''0'', CHR ''1''} \<Longrightarrow>
               MGate_apply g (ket (x @ [b])) =
                 Inr (ket (x @ [if x \<in> set [''00'', ''10''] then flip_digit b else b]))"
    by blast
  have a: "MGate_apply g (ket ''000'') = Inr (ket ''001'')"
    using act[of "''00''" "CHR ''0''"] by (simp add: QReg_bases_2 flip_digit_def)
  have b: "MGate_apply g (ket ''001'') = Inr (ket ''000'')"
    using act[of "''00''" "CHR ''1''"] by (simp add: QReg_bases_2 flip_digit_def)
  have c: "MGate_apply g (ket ''010'') = Inr (ket ''010'')"
    using act[of "''01''" "CHR ''0''"] by (simp add: QReg_bases_2 flip_digit_def)
  have d: "MGate_apply g (ket ''011'') = Inr (ket ''011'')"
    using act[of "''01''" "CHR ''1''"] by (simp add: QReg_bases_2 flip_digit_def)
  show ?thesis using a b c d by (simp add: g)
qed

section \<open>What the constructor of \<^verbatim>\<open>LazyGate\<close> checks\<close>

text \<open>
  Claim C5, as the code has it. The constructor of \<^verbatim>\<open>LazyGate\<close> checks none of the four
  conditions. Take a register of fewer than 63 qubits and at most 63 target positions, each
  below 63, where the 64-bit index arithmetic of \<^verbatim>\<open>get_qbpos\<close> and \<^verbatim>\<open>get_spectator\<close> is
  exact. Then the constructor fails, with the ValueError of a shift by a negative count,
  when some target position is negative. When no position is negative it succeeds, for
  every matrix, and stores the matrix, the positions and a rearrangement of the basis
  indices: also when there are more positions than qubits, when a position is beyond the
  register, when a position is repeated, and when the dimension of the matrix is not
  \<open>2 ^ len(qbpos)\<close>. Nothing is said here of positions from 63 on.
\<close>

theorem LazyGate_no_validation:
  assumes "argsort_spec argsort" and "n < 63" and "length P \<le> 63" and "\<forall>q\<in>set P. q < 63"
  shows "((\<exists>q\<in>set P. q < 0) \<longrightarrow> LazyGate argsort U P n = Inl ValueError) \<and>
         ((\<forall>q\<in>set P. 0 \<le> q) \<longrightarrow>
            (\<exists>g. LazyGate argsort U P n = Inr g \<and> qreg_size g = n \<and> lmatrix g = U \<and>
                 qbpos g = P \<and> msize g = 2 ^ length P \<and> qsize g = 2 ^ n \<and>
                 mset (bases g) = mset [0..<2 ^ n]))"
proof (intro conjI impI)
  assume "\<exists>q\<in>set P. q < 0"
  with assms(1) show "LazyGate argsort U P n = Inl ValueError" by (rule LazyGate_negative)
next
  assume "\<forall>q\<in>set P. 0 \<le> q"
  from LazyGate_succeeds[OF assms(1) this, of U n]
  show "\<exists>g. LazyGate argsort U P n = Inr g \<and> qreg_size g = n \<and> lmatrix g = U \<and>
                 qbpos g = P \<and> msize g = 2 ^ length P \<and> qsize g = 2 ^ n \<and>
                 mset (bases g) = mset [0..<2 ^ n]"
    by auto
qed

theorem LazyGate_no_validation_witness:
  "LazyGate stable_argsort [[0, 1], [1, 0]] [- 1] 1 = Inl ValueError \<and>
   LazyGate stable_argsort [[0, 1], [1, 0]] [0] 1 =
     Inr \<lparr>qreg_size = 1, lmatrix = [[0, 1], [1, 0]], msize = 2, qsize = 2, bases = [0, 1],
          qbpos = [0], specpos = []\<rparr>"
proof -
  have n: "(1 :: nat) < 63" by simp
  have l1: "length [- 1 :: int] \<le> 63" and b1: "\<forall>q\<in>set [- 1 :: int]. q < 63" by simp_all
  have l0: "length [0 :: int] \<le> 63" and b0: "\<forall>q\<in>set [0 :: int]. q < 63" by simp_all
  have neg: "\<exists>q\<in>set [- 1 :: int]. q < 0" by simp
  have pos: "\<forall>q\<in>set [0 :: int]. 0 \<le> q" by simp
  have a: "LazyGate stable_argsort [[0, 1], [1, 0]] [- 1] 1 = Inl ValueError"
    using LazyGate_no_validation[OF argsort_spec_stable n l1 b1, of "[[0, 1], [1, 0]]"] neg
    by blast
  from LazyGate_no_validation[OF argsort_spec_stable n l0 b0, of "[[0, 1], [1, 0]]"] pos
  obtain g where g: "LazyGate stable_argsort [[0, 1], [1, 0]] [0] 1 = Inr g"
    "qreg_size g = 1" "lmatrix g = [[0, 1], [1, 0]]" "qbpos g = [0]"
    by blast
  have v: "LazyGate stable_argsort [[0, 1], [1, 0]] [0] 1 =
     Inr \<lparr>qreg_size = 1, lmatrix = [[0, 1], [1, 0]], msize = 2, qsize = 2, bases = [0, 1],
          qbpos = [0], specpos = []\<rparr>"
    by code_simp
  show ?thesis using a v by simp
qed

text \<open>
  The claim C5 as stated fails at each of its four conditions: the constructor returns a
  gate for two positions in a one-qubit register, for the position 1 in a one-qubit
  register, for the position 0 given twice, and for a matrix of dimension 1 with one target
  position. (The arrays sorted here have at most four entries, where NumPy sorts by
  insertion, as the stable sort does.)
\<close>

theorem LazyGate_validation_counterexample:
  "LazyGate stable_argsort [[1,0,0,0],[0,1,0,0],[0,0,0,1],[0,0,1,0]] [0, 1] 1 =
     Inr \<lparr>qreg_size = 1, lmatrix = [[1,0,0,0],[0,1,0,0],[0,0,0,1],[0,0,1,0]], msize = 4,
          qsize = 2, bases = [0, 1], qbpos = [0, 1], specpos = []\<rparr> \<and>
   LazyGate stable_argsort [[0, 1], [1, 0]] [1] 1 =
     Inr \<lparr>qreg_size = 1, lmatrix = [[0, 1], [1, 0]], msize = 2, qsize = 2, bases = [0, 1],
          qbpos = [1], specpos = [0]\<rparr> \<and>
   LazyGate stable_argsort [[1,0,0,0],[0,1,0,0],[0,0,0,1],[0,0,1,0]] [0, 0] 2 =
     Inr \<lparr>qreg_size = 2, lmatrix = [[1,0,0,0],[0,1,0,0],[0,0,0,1],[0,0,1,0]], msize = 4,
          qsize = 4, bases = [0, 2, 1, 3], qbpos = [0, 0], specpos = [1]\<rparr> \<and>
   LazyGate stable_argsort [[1]] [0] 1 =
     Inr \<lparr>qreg_size = 1, lmatrix = [[1]], msize = 2, qsize = 2, bases = [0, 1],
          qbpos = [0], specpos = []\<rparr>"
  by code_simp

section \<open>The index table of a \<^verbatim>\<open>LazyGate\<close>\<close>

text \<open>
  Claim C10. For a \<^verbatim>\<open>LazyGate\<close> built with distinct target positions inside an \<open>n\<close>-qubit
  register, the table \<^verbatim>\<open>bases\<close> is a permutation of \<open>0 .. 2 ^ n - 1\<close>. Consequently
  \<^verbatim>\<open>LazyGate.apply\<close> reads every input amplitude once and writes every output index once:
  the run of \<^verbatim>\<open>apply\<close> with a log of its accesses returns what \<^verbatim>\<open>apply\<close> returns, and
  whenever \<^verbatim>\<open>apply\<close> returns, the places read, in order, are the table, and so are the
  places written. For a matrix of dimension \<open>2 ^ len(qbpos)\<close> and a register of \<open>n\<close> qubits
  \<^verbatim>\<open>apply\<close> does return, and the amplitude at the output index \<open>bases ! i\<close> is the one
  product written there: row \<open>i mod msize\<close> of the matrix times the amplitudes gathered for
  the block of \<open>i\<close>.
\<close>

theorem LazyGate_bases_permutation:
  assumes "argsort_spec argsort" "distinct P" "\<forall>q\<in>set P. 0 \<le> q \<and> q < int n"
  shows "\<exists>g. LazyGate argsort U P n = Inr g \<and> mset (bases g) = mset [0..<2 ^ n] \<and>
             distinct (bases g) \<and> set (bases g) = {0..<2 ^ n} \<and>
             (\<forall>R. LazyGate_apply_traced g R =
                    (case LazyGate_apply g R of Inl e \<Rightarrow> Inl e
                     | Inr R' \<Rightarrow> Inr (R', bases g, bases g))) \<and>
             (\<forall>R. rect U \<and> shape U = (2 ^ length P, 2 ^ length P) \<and>
                   length (state R) = 2 ^ n \<longrightarrow>
                   (\<exists>R'. LazyGate_apply g R = Inr R' \<and>
                         LazyGate_apply_traced g R = Inr (R', bases g, bases g) \<and>
                         length (state R') = 2 ^ n \<and>
                         (\<forall>i<2 ^ n. state R' ! (bases g ! i) =
                                    block_product U (2 ^ length P) (bases g) (state R) i)))"
proof -
  have nn: "\<forall>q\<in>set P. 0 \<le> q" using assms(3) by simp
  from LazyGate_succeeds[OF assms(1) nn, of U n]
  obtain bs where bs: "LazyGate argsort U P n =
                Inr \<lparr>qreg_size = n, lmatrix = U, msize = 2 ^ length P, qsize = 2 ^ n,
                     bases = bs, qbpos = P,
                     specpos = filter (\<lambda>x. int x \<notin> set P) [0..<n]\<rparr>"
      "mset bs = mset [0..<2 ^ n]" "length bs = 2 ^ n"
    by blast
  let ?g = "\<lparr>qreg_size = n, lmatrix = U, msize = 2 ^ length P, qsize = 2 ^ n,
                     bases = bs, qbpos = P,
                     specpos = filter (\<lambda>x. int x \<notin> set P) [0..<n]\<rparr>"
  have bg: "bases ?g = bs" by simp
  have d: "distinct bs" using mset_eq_imp_distinct_iff[OF bs(2)] by simp
  have s: "set bs = {0..<2 ^ n}" using mset_eq_setD[OF bs(2)] by simp
  have tr: "LazyGate_apply_traced ?g R =
              (case LazyGate_apply ?g R of Inl e \<Rightarrow> Inl e
               | Inr R' \<Rightarrow> Inr (R', bases ?g, bases ?g))" for R
  proof -
    have "LazyGate_apply_traced ?g R =
            and_then (LazyGate_apply ?g R) (\<lambda>r'. Inr (r', bases ?g, bases ?g))"
      by (rule LazyGate_apply_traced_erase) (simp_all add: bs(3))
    then show ?thesis by (simp only: and_then_def)
  qed
  have ap: "\<exists>R'. LazyGate_apply ?g R = Inr R' \<and>
                 LazyGate_apply_traced ?g R = Inr (R', bases ?g, bases ?g) \<and>
                 length (state R') = 2 ^ n \<and>
                 (\<forall>i<2 ^ n. state R' ! (bases ?g ! i) =
                            block_product U (2 ^ length P) (bases ?g) (state R) i)"
    if U: "rect U" "shape U = (2 ^ length P, 2 ^ length P)" and R: "length (state R) = 2 ^ n" for R
  proof -
    from LazyGate_apply_value[OF assms(1) U assms(2,3) R]
    obtain g new where g: "LazyGate argsort U P n = Inr g"
      "LazyGate_apply g R = Inr (QReg (nbits R) new)" "length new = 2 ^ n"
      "\<forall>i<2 ^ n. new ! (bases g ! i) = block_product U (2 ^ length P) (bases g) (state R) i"
      by blast
    from g(1) bs(1) have gg: "g = ?g" by simp
    have a: "LazyGate_apply ?g R = Inr (QReg (nbits R) new)" using g(2) unfolding gg .
    have t: "LazyGate_apply_traced ?g R = Inr (QReg (nbits R) new, bases ?g, bases ?g)"
      unfolding tr a by (simp only: sum.case)
    have l: "length (state (QReg (nbits R) new)) = 2 ^ n" using g(3) by (simp add: QReg_def)
    have e: "\<forall>i<2 ^ n. state (QReg (nbits R) new) ! (bases ?g ! i) =
                       block_product U (2 ^ length P) (bases ?g) (state R) i"
      using g(4) unfolding gg by (simp add: QReg_def)
    from a t l e show ?thesis by blast
  qed
  show ?thesis
  proof (rule exI[of _ ?g], intro conjI allI impI)
    show "LazyGate argsort U P n = Inr ?g" by (rule bs(1))
    show "mset (bases ?g) = mset [0..<2 ^ n]" using bs(2) by simp
    show "distinct (bases ?g)" using d by simp
    show "set (bases ?g) = {0..<2 ^ n}" using s by simp
  next
    fix R :: qreg
    show "LazyGate_apply_traced ?g R =
            (case LazyGate_apply ?g R of Inl e \<Rightarrow> Inl e
             | Inr R' \<Rightarrow> Inr (R', bases ?g, bases ?g))"
      by (rule tr)
  next
    fix R :: qreg
    assume "rect U \<and> shape U = (2 ^ length P, 2 ^ length P) \<and> length (state R) = 2 ^ n"
    then show "\<exists>R'. LazyGate_apply ?g R = Inr R' \<and>
                    LazyGate_apply_traced ?g R = Inr (R', bases ?g, bases ?g) \<and>
                    length (state R') = 2 ^ n \<and>
                    (\<forall>i<2 ^ n. state R' ! (bases ?g ! i) =
                               block_product U (2 ^ length P) (bases ?g) (state R) i)"
      using ap[of R] by blast
  qed
qed

theorem LazyGate_bases_permutation_witness:
  "distinct [2 :: int, 0] \<and>
   LazyGate stable_argsort [[1,0,0,0],[0,1,0,0],[0,0,0,1],[0,0,1,0]] [2, 0] 3 =
     Inr \<lparr>qreg_size = 3, lmatrix = [[1,0,0,0],[0,1,0,0],[0,0,0,1],[0,0,1,0]], msize = 4,
          qsize = 8, bases = [0, 1, 4, 5, 2, 3, 6, 7], qbpos = [2, 0], specpos = [1]\<rparr> \<and>
   LazyGate_apply \<lparr>qreg_size = 3, lmatrix = [[1,0,0,0],[0,1,0,0],[0,0,0,1],[0,0,1,0]], msize = 4,
          qsize = 8, bases = [0, 1, 4, 5, 2, 3, 6, 7], qbpos = [2, 0], specpos = [1]\<rparr>
       (QReg 3 [1, 2, 3, 4, 5, 6, 7, 8]) = Inr (QReg 3 [1, 2, 3, 4, 6, 5, 8, 7]) \<and>
   LazyGate_apply_traced \<lparr>qreg_size = 3, lmatrix = [[1,0,0,0],[0,1,0,0],[0,0,0,1],[0,0,1,0]],
          msize = 4, qsize = 8, bases = [0, 1, 4, 5, 2, 3, 6, 7], qbpos = [2, 0], specpos = [1]\<rparr>
       (QReg 3 [1, 2, 3, 4, 5, 6, 7, 8]) =
     Inr (QReg 3 [1, 2, 3, 4, 6, 5, 8, 7], [0, 1, 4, 5, 2, 3, 6, 7], [0, 1, 4, 5, 2, 3, 6, 7])"
proof -
  let ?U = "[[1,0,0,0],[0,1,0,0],[0,0,0,1],[0,0,1,0]] :: mat"
  let ?R = "QReg 3 [1, 2, 3, 4, 5, 6, 7, 8]"
  let ?g = "\<lparr>qreg_size = 3, lmatrix = ?U, msize = 4,
          qsize = 8, bases = [0, 1, 4, 5, 2, 3, 6, 7], qbpos = [2, 0], specpos = [1]\<rparr>"
  have d: "distinct [2 :: int, 0]" by simp
  have r: "\<forall>q\<in>set [2 :: int, 0]. 0 \<le> q \<and> q < int 3" by simp
  have U: "rect ?U \<and> shape ?U = (2 ^ length [2 :: int, 0], 2 ^ length [2 :: int, 0]) \<and>
           length (state ?R) = 2 ^ 3"
    by (simp add: rect_def shape_def QReg_def)
  have v: "LazyGate stable_argsort ?U [2, 0] 3 = Inr ?g"
    by code_simp
  have a: "LazyGate_apply ?g ?R = Inr (QReg 3 [1, 2, 3, 4, 6, 5, 8, 7])"
    by code_simp
  from LazyGate_bases_permutation[OF argsort_spec_stable d r, of ?U]
  obtain g where g: "LazyGate stable_argsort ?U [2, 0] 3 = Inr g"
    "\<forall>R. rect ?U \<and> shape ?U = (2 ^ length [2 :: int, 0], 2 ^ length [2 :: int, 0]) \<and>
         length (state R) = 2 ^ 3 \<longrightarrow>
         (\<exists>R'. LazyGate_apply g R = Inr R' \<and>
               LazyGate_apply_traced g R = Inr (R', bases g, bases g))"
    by blast
  have gg: "g = ?g" using g(1) v by simp
  from g(2) U obtain R' where R': "LazyGate_apply g ?R = Inr R'"
    "LazyGate_apply_traced g ?R = Inr (R', bases g, bases g)"
    by blast
  have "R' = QReg 3 [1, 2, 3, 4, 6, 5, 8, 7]" using R'(1) a unfolding gg by simp
  then have "LazyGate_apply_traced ?g ?R =
     Inr (QReg 3 [1, 2, 3, 4, 6, 5, 8, 7], [0, 1, 4, 5, 2, 3, 6, 7], [0, 1, 4, 5, 2, 3, 6, 7])"
    using R'(2) unfolding gg by simp
  then show ?thesis using d v a by simp
qed
section \<open>A lazy gate acts as the dense gate\<close>

text \<open>
  Claim C1. For every matrix \<open>U\<close> of dimension \<open>2 ^ m\<close>, every list \<open>P\<close> of \<open>m\<close> distinct
  target positions inside an \<open>n\<close>-qubit register and every \<open>n\<close>-qubit register \<open>R\<close>, the
  \<^verbatim>\<open>LazyGate\<close> built from \<open>U\<close>, \<open>P\<close> and \<open>n\<close> is constructed, the matrix \<open>dense_embed U P n\<close>
  (\<open>U\<close> at the positions \<open>P\<close>, the identity elsewhere) makes a Dense gate of \<open>n\<close> qubits, and
  applying either to \<open>R\<close> gives the same register: for every state, so for every basis
  state. Position \<open>q\<close> is bit \<open>q\<close> of the basis index, the first position of \<open>P\<close> is the most
  significant bit of the index into \<open>U\<close>, and \<^verbatim>\<open>np.argsort\<close> may be any sorting permutation.
  Amplitudes being exact here, the two states are equal, not only close. For adjacent
  positions \<open>p + m - 1, \<dots>, p\<close> the matrix \<open>dense_embed U P n\<close> is the Kronecker product of the
  identity of the upper qubits, \<open>U\<close> and the identity of the lower qubits (lemma
  \<open>dense_embed_kron\<close>).
\<close>

theorem LazyGate_apply_dense:
  assumes as: "argsort_spec argsort" and U: "rect U" "shape U = (2 ^ length P, 2 ^ length P)"
      and d: "distinct P" and r: "\<forall>q\<in>set P. 0 \<le> q \<and> q < int n"
      and R: "nbits R = n" "length (state R) = 2 ^ n"
  shows "\<exists>g d R'. LazyGate argsort U P n = Inr g \<and> MGate (dense_embed U P n) n = Inr d \<and>
                  LazyGate_apply g R = Inr R' \<and> MGate_apply d R = Inr R'"
proof -
  let ?M = "2 ^ length P :: nat"
  let ?f = "\<lambda>r c. if same_spectators P n r c then U ! target_bits P r ! target_bits P c else 0"
  let ?D = "dense_embed U P n"
  let ?d = "\<lparr>qreg_size = n, matrix = ?D\<rparr>"
  let ?st = "state R"
  from LazyGate_apply_value[OF as U d r R(2)]
  obtain g bs new where g: "LazyGate argsort U P n = Inr g"
    and bs: "distinct bs" "set bs = {0..<2 ^ n}" "length bs = 2 ^ n"
            "map (packed_index P n) bs = [0..<2 ^ n]"
    and ap: "LazyGate_apply g R = Inr (QReg (nbits R) new)"
    and new: "length new = 2 ^ n"
             "\<And>i. i < 2 ^ n \<Longrightarrow> new ! (bs ! i) = block_product U ?M bs ?st i"
    by blast
  have N: "(2::nat) ^ n = 2 ^ (n - length P) * ?M" by (rule register_size_split[OF d r])
  have D: "?D = mat_of ?f (2 ^ n)" by (simp only: dense_embed_def)
  have shD: "shape ?D = (2 ^ n, 2 ^ n)" unfolding D by (rule shape_mat_of) simp
  have mg: "MGate ?D n = Inr ?d" unfolding MGate_Inr using shD by (simp add: D)
  let ?dn = "map (\<lambda>row. vdot row ?st) ?D"
  have dap: "MGate_apply ?d R = Inr (QReg (nbits R) ?dn)"
    using shD R(2) by (simp add: MGate_apply_def np_dot_def)
  have ldn: "length ?dn = 2 ^ n" by (simp add: D)
  have dent: "?dn ! c = (\<Sum>k<2 ^ n. ?f c k * ?st ! k)" if "c < 2 ^ n" for c
  proof -
    have "?dn ! c = vdot (map (?f c) [0..<2 ^ n]) ?st" using that by (simp add: D)
    also have "\<dots> = (\<Sum>k<2 ^ n. map (?f c) [0..<2 ^ n] ! k * ?st ! k)"
      unfolding vdot_sum using R(2) by simp
    also have "\<dots> = (\<Sum>k<2 ^ n. ?f c k * ?st ! k)"
      by (rule sum.cong[OF refl]) simp
    finally show ?thesis .
  qed
  have "new = ?dn"
  proof (rule nth_equalityI)
    show "length new = length ?dn" using new(1) ldn by simp
  next
    fix c assume "c < length new"
    then have c: "c < 2 ^ n" using new(1) by simp
    then have "c \<in> set bs" using bs(2) by simp
    then obtain i where i: "i < length bs" "bs ! i = c" by (metis in_set_conv_nth)
    then have iN: "i < 2 ^ n" using bs(3) by simp
    have iG: "i < 2 ^ (n - length P) * ?M" using iN N by simp
    have "new ! c = block_product U ?M bs ?st i" using new(2)[OF iN] i(2) by simp
    also have "\<dots> = (\<Sum>a<?M. U ! (i mod ?M) ! a * ?st ! (bs ! (i div ?M * ?M + a)))"
      using U _ iG by (rule block_product_sum) (simp_all add: bs(3) N[symmetric])
    also have "\<dots> = (\<Sum>k<2 ^ n. ?f (bs ! i) k * ?st ! k)"
      by (rule dense_row_sum[OF d r bs iN, symmetric])
    also have "\<dots> = ?dn ! c" unfolding i(2) by (rule dent[OF c, symmetric])
    finally show "new ! c = ?dn ! c" .
  qed
  then show ?thesis using g mg ap dap by blast
qed

theorem LazyGate_apply_dense_witness:
  "LazyGate stable_argsort [[1, 2], [3, 4]] [1] 2 =
     Inr \<lparr>qreg_size = 2, lmatrix = [[1, 2], [3, 4]], msize = 2, qsize = 4,
          bases = [0, 2, 1, 3], qbpos = [1], specpos = [0]\<rparr> \<and>
   LazyGate_apply \<lparr>qreg_size = 2, lmatrix = [[1, 2], [3, 4]], msize = 2, qsize = 4,
          bases = [0, 2, 1, 3], qbpos = [1], specpos = [0]\<rparr> (QReg 2 [1, 2, 3, 4]) =
     Inr (QReg 2 [7, 10, 15, 22]) \<and>
   MGate (dense_embed [[1, 2], [3, 4]] [1] 2) 2 =
     Inr \<lparr>qreg_size = 2, matrix = [[1,0,2,0],[0,1,0,2],[3,0,4,0],[0,3,0,4]]\<rparr> \<and>
   MGate_apply \<lparr>qreg_size = 2, matrix = [[1,0,2,0],[0,1,0,2],[3,0,4,0],[0,3,0,4]]\<rparr>
     (QReg 2 [1, 2, 3, 4]) = Inr (QReg 2 [7, 10, 15, 22])"
proof -
  have sh: "shape [[1, 2], [3, 4]] = (2 ^ length [1 :: int], 2 ^ length [1 :: int])"
    by (simp add: shape_def)
  have d: "distinct [1 :: int]" by simp
  have r: "\<forall>q\<in>set [1 :: int]. 0 \<le> q \<and> q < int 2" by simp
  have R: "nbits (QReg 2 [1, 2, 3, 4]) = 2" "length (state (QReg 2 [1, 2, 3, 4])) = 2 ^ 2"
    by (simp_all add: QReg_def)
  from LazyGate_apply_dense[OF argsort_spec_stable rect_two sh d r R]
  obtain g dd R' where g: "LazyGate stable_argsort [[1, 2], [3, 4]] [1] 2 = Inr g"
    and dd: "MGate (dense_embed [[1, 2], [3, 4]] [1] 2) 2 = Inr dd"
    and a: "LazyGate_apply g (QReg 2 [1, 2, 3, 4]) = Inr R'"
    and b: "MGate_apply dd (QReg 2 [1, 2, 3, 4]) = Inr R'"
    by blast
  have gv: "LazyGate stable_argsort [[1, 2], [3, 4]] [1] 2 =
     Inr \<lparr>qreg_size = 2, lmatrix = [[1, 2], [3, 4]], msize = 2, qsize = 4,
          bases = [0, 2, 1, 3], qbpos = [1], specpos = [0]\<rparr>"
    by code_simp
  have dv: "MGate (dense_embed [[1, 2], [3, 4]] [1] 2) 2 =
     Inr \<lparr>qreg_size = 2, matrix = [[1,0,2,0],[0,1,0,2],[3,0,4,0],[0,3,0,4]]\<rparr>"
    by code_simp
  have bv: "MGate_apply \<lparr>qreg_size = 2, matrix = [[1,0,2,0],[0,1,0,2],[3,0,4,0],[0,3,0,4]]\<rparr>
     (QReg 2 [1, 2, 3, 4]) = Inr (QReg 2 [7, 10, 15, 22])"
    by (simp add: MGate_apply_def np_dot_def shape_def vdot_def QReg_def)
  have "R' = QReg 2 [7, 10, 15, 22]" using b dd dv bv by simp
  then show ?thesis using g gv a dv bv by simp
qed

section \<open>Buffers of the results\<close>

text \<open>
  Claim C8, as the code has it. No apply operation changes a buffer that existed before,
  that of its input included. The dense \<^verbatim>\<open>apply\<close>, the lazy \<^verbatim>\<open>apply\<close> and \<^verbatim>\<open>LazyCNOT.dot\<close>,
  when they return, return their result in a newly allocated buffer, whose address no
  array had before, and the result read from the new store is the result computed on the
  values. \<^verbatim>\<open>LazyNOT.dot\<close> allocates nothing: it returns a view of the buffer of its input,
  read backwards.
\<close>

theorem apply_buffers:
  assumes "buf (state_s r) < length st" and "valid st a"
  shows "(\<forall>R. MGate_apply g (reg_value st r) = Inr R \<longrightarrow>
            (\<exists>R' st'. MGate_apply_s g r st = Inr (R', st') \<and> take (length st) st' = st \<and>
                      buf (state_s R') = length st \<and> reg_value st' R' = R)) \<and>
         (\<forall>R. LazyGate_apply lg (reg_value st r) = Inr R \<longrightarrow>
            (\<exists>R' st'. LazyGate_apply_s lg r st = Inr (R', st') \<and> take (length st) st' = st \<and>
                      buf (state_s R') = length st \<and> reg_value st' R' = R)) \<and>
         (\<forall>v. LazyCNOT_dot c (read st a) = Inr v \<longrightarrow>
            (\<exists>a' st'. LazyCNOT_dot_s c a st = Inr (a', st') \<and> take (length st) st' = st \<and>
                      buf a' = length st \<and> read st' a' = v)) \<and>
         (\<exists>a'. LazyNOT_dot_s nt a st = (a', st) \<and> buf a' = buf a \<and>
               read st a' = LazyNOT_dot nt (read st a))"
proof (intro conjI allI impI)
  fix R assume R: "MGate_apply g (reg_value st r) = Inr R"
  have "reg_value (st @ [state R])
          \<lparr>nbits_s = nbits R, state_s = fresh_array st (length (state R))\<rparr> = R"
    by (simp add: reg_value_def read_fresh qreg_eq)
  then show "\<exists>R' st'. MGate_apply_s g r st = Inr (R', st') \<and> take (length st) st' = st \<and>
                      buf (state_s R') = length st \<and> reg_value st' R' = R"
    unfolding MGate_apply_s_eq R by simp
next
  fix R assume R: "LazyGate_apply lg (reg_value st r) = Inr R"
  have "length (state R) = alen (state_s r)"
    using LazyGate_apply_shape(1)[OF R] by (simp add: reg_value_def QReg_def read_def)
  then have "reg_value (st @ [state R])
          \<lparr>nbits_s = nbits R, state_s = fresh_array st (alen (state_s r))\<rparr> = R"
    using read_fresh[of st "state R"] by (simp add: reg_value_def qreg_eq)
  then show "\<exists>R' st'. LazyGate_apply_s lg r st = Inr (R', st') \<and> take (length st) st' = st \<and>
                      buf (state_s R') = length st \<and> reg_value st' R' = R"
    unfolding LazyGate_apply_s_eq[OF assms(1)] R by simp
next
  fix v assume v: "LazyCNOT_dot c (read st a) = Inr v"
  then have "length v = alen a"
    unfolding LazyCNOT_dot_def Let_def by (auto simp: read_def split: if_splits)
  then have "read (st @ [v]) (fresh_array st (alen a)) = v"
    using read_fresh[of st v] by simp
  then show "\<exists>a' st'. LazyCNOT_dot_s c a st = Inr (a', st') \<and> take (length st) st' = st \<and>
                      buf a' = length st \<and> read st' a' = v"
    unfolding LazyCNOT_dot_s_eq v by simp
next
  show "\<exists>a'. LazyNOT_dot_s nt a st = (a', st) \<and> buf a' = buf a \<and>
               read st a' = LazyNOT_dot nt (read st a)"
    using read_reversed[OF assms(2)]
    by (simp add: LazyNOT_dot_s_def LazyNOT_dot_def reversed_def)
qed

theorem apply_buffers_witness:
  "MGate_apply_s NOT_gate \<lparr>nbits_s = 1, state_s = \<lparr>buf = 0, offset = 0, stride = 1, alen = 2\<rparr>\<rparr>
     [[5, 7]] =
     Inr (\<lparr>nbits_s = 1, state_s = \<lparr>buf = 1, offset = 0, stride = 1, alen = 2\<rparr>\<rparr>,
          [[5, 7], [7, 5]]) \<and>
   LazyGate_apply_s \<lparr>qreg_size = 1, lmatrix = [[0, 1], [1, 0]], msize = 2, qsize = 2,
       bases = [0, 1], qbpos = [0], specpos = []\<rparr>
     \<lparr>nbits_s = 1, state_s = \<lparr>buf = 0, offset = 0, stride = 1, alen = 2\<rparr>\<rparr> [[5, 7]] =
     Inr (\<lparr>nbits_s = 1, state_s = \<lparr>buf = 1, offset = 0, stride = 1, alen = 2\<rparr>\<rparr>,
          [[5, 7], [7, 5]]) \<and>
   LazyCNOT_dot_s (LazyCNOT 1) \<lparr>buf = 0, offset = 0, stride = 1, alen = 2\<rparr> [[5, 7]] =
     Inr (\<lparr>buf = 1, offset = 0, stride = 1, alen = 2\<rparr>, [[5, 7], [7, 5]]) \<and>
   LazyNOT_dot_s (LazyNOT 1) \<lparr>buf = 0, offset = 0, stride = 1, alen = 2\<rparr> [[5, 7]] =
     (\<lparr>buf = 0, offset = 1, stride = - 1, alen = 2\<rparr>, [[5, 7]]) \<and>
   read [[5, 7]] \<lparr>buf = 0, offset = 1, stride = - 1, alen = 2\<rparr> = [7, 5]"
proof -
  let ?a = "\<lparr>buf = 0, offset = 0, stride = 1, alen = 2\<rparr>"
  let ?r = "\<lparr>nbits_s = 1, state_s = ?a\<rparr>"
  let ?st = "[[5, 7]] :: store"
  let ?lg = "\<lparr>qreg_size = 1, lmatrix = [[0, 1], [1, 0]], msize = 2, qsize = 2,
       bases = [0, 1], qbpos = [0], specpos = []\<rparr>"
  have b: "buf (state_s ?r) < length ?st" by simp
  have v: "valid ?st ?a" by (simp add: valid_def pos_def upt_rec)
  have rv: "reg_value ?st ?r = QReg 1 [5, 7]"
    by (simp add: reg_value_def read_def pos_def upt_rec)
  have rd: "read ?st ?a = [5, 7]" by (simp add: read_def pos_def upt_rec)
  have m: "MGate_apply NOT_gate (reg_value ?st ?r) = Inr (QReg 1 [7, 5])"
    unfolding rv by (simp add: MGate_apply_def NOT_gate_def np_dot_def shape_def vdot_def QReg_def)
  have l: "LazyGate_apply ?lg (reg_value ?st ?r) = Inr (QReg 1 [7, 5])"
    unfolding rv by code_simp
  have c: "LazyCNOT_dot (LazyCNOT 1) (read ?st ?a) = Inr [7, 5]"
    unfolding rd by (simp add: LazyCNOT_dot_def)
  note T = apply_buffers[OF b v, of NOT_gate ?lg "LazyCNOT 1" "LazyNOT 1"]
  from T m obtain R1 st1 where 1: "MGate_apply_s NOT_gate ?r ?st = Inr (R1, st1)"
    "take (length ?st) st1 = ?st" "buf (state_s R1) = length ?st" by blast
  from T l obtain R2 st2 where 2: "LazyGate_apply_s ?lg ?r ?st = Inr (R2, st2)"
    "take (length ?st) st2 = ?st" "buf (state_s R2) = length ?st" by blast
  from T c obtain a3 st3 where 3: "LazyCNOT_dot_s (LazyCNOT 1) ?a ?st = Inr (a3, st3)"
    "take (length ?st) st3 = ?st" "buf a3 = length ?st" by blast
  from T obtain a4 where 4: "LazyNOT_dot_s (LazyNOT 1) ?a ?st = (a4, ?st)" "buf a4 = buf ?a"
    "read ?st a4 = LazyNOT_dot (LazyNOT 1) (read ?st ?a)" by blast
  have e1: "MGate_apply_s NOT_gate ?r ?st =
     Inr (\<lparr>nbits_s = 1, state_s = \<lparr>buf = 1, offset = 0, stride = 1, alen = 2\<rparr>\<rparr>,
          [[5, 7], [7, 5]])"
    unfolding MGate_apply_s_eq m by (simp add: fresh_array_def QReg_def)
  have e2: "LazyGate_apply_s ?lg ?r ?st =
     Inr (\<lparr>nbits_s = 1, state_s = \<lparr>buf = 1, offset = 0, stride = 1, alen = 2\<rparr>\<rparr>,
          [[5, 7], [7, 5]])"
    unfolding LazyGate_apply_s_eq[OF b] l by (simp add: fresh_array_def QReg_def)
  have e3: "LazyCNOT_dot_s (LazyCNOT 1) ?a ?st =
     Inr (\<lparr>buf = 1, offset = 0, stride = 1, alen = 2\<rparr>, [[5, 7], [7, 5]])"
    unfolding LazyCNOT_dot_s_eq c by (simp add: fresh_array_def)
  have e4: "LazyNOT_dot_s (LazyNOT 1) ?a ?st =
     (\<lparr>buf = 0, offset = 1, stride = - 1, alen = 2\<rparr>, [[5, 7]])"
    by (simp add: LazyNOT_dot_s_def reversed_def pos_def)
  have "a4 = \<lparr>buf = 0, offset = 1, stride = - 1, alen = 2\<rparr>" using 4(1) e4 by simp
  then have e5: "read [[5, 7]] \<lparr>buf = 0, offset = 1, stride = - 1, alen = 2\<rparr> = [7, 5]"
    using 4(3) rd by (simp add: LazyNOT_dot_def)
  show ?thesis using e1 e2 e3 e4 e5 by simp
qed

text \<open>
  The claim C8 as stated (every result in a new buffer that does not alias the input) fails
  for \<^verbatim>\<open>LazyNOT.dot\<close>: the array it returns for the state \<open>[5, 7]\<close> has the address of the
  input, and a later write to entry 0 of the result changes entry 1 of the input.
\<close>

theorem LazyNOT_dot_alias_counterexample:
  "LazyNOT_dot_s (LazyNOT 1) \<lparr>buf = 0, offset = 0, stride = 1, alen = 2\<rparr> [[5, 7]] =
     (\<lparr>buf = 0, offset = 1, stride = - 1, alen = 2\<rparr>, [[5, 7]]) \<and>
   buf \<lparr>buf = 0, offset = 1, stride = - 1, alen = 2\<rparr> =
     buf \<lparr>buf = 0, offset = 0, stride = 1, alen = 2\<rparr> \<and>
   read (write_at [[5, 7]] \<lparr>buf = 0, offset = 1, stride = - 1, alen = 2\<rparr> 0 9)
     \<lparr>buf = 0, offset = 0, stride = 1, alen = 2\<rparr> = [5, 9]"
  by (simp add: LazyNOT_dot_s_def reversed_def pos_def read_def write_at_def upt_rec)

end
